theory Spec2Isabelle
  imports Main "HOL-Library.Multiset"
begin

section \<open>Extension identifiers\<close>

text \<open>
  The module \<open>extensionManagementUtil.ts\<close> works on identifiers \<open>{ id: string, uuid?: string }\<close>.
  Strings are lists of characters; an absent property (JavaScript \<open>undefined\<close>) is \<open>None\<close>.
  The field \<open>id\<close> is written \<open>id'\<close>, since \<open>id\<close> is the identity function of HOL.
\<close>

record IExtensionIdentifier =
  id' :: string
  uuid :: "string option"

text \<open>
  The test \<open>a.uuid && b.uuid\<close> of the source reads the truthiness of an optional string:
  \<open>undefined\<close> and the empty string are falsy, every other string is truthy.
\<close>

definition truthy :: "string option \<Rightarrow> bool" where
  "truthy u = (case u of None \<Rightarrow> False | Some s \<Rightarrow> s \<noteq> [])"

text \<open>
  Modelled from the spec: \<open>compareIgnoreCase\<close> is imported from \<open>vs/base/common/strings\<close>, which is
  not among the sources. The spec calls it the case-insensitive comparison of two ids. It is
  modelled as a three-way comparison, character by character, after mapping the lower-case ASCII
  letters onto their upper-case variants; a shorter string that is a prefix of the other one
  compares smaller. Characters outside the ASCII letters are compared as they are.
\<close>

definition toUpperAscii :: "char \<Rightarrow> char" where
  "toUpperAscii c =
     (case map_of (zip ''abcdefghijklmnopqrstuvwxyz'' ''ABCDEFGHIJKLMNOPQRSTUVWXYZ'') c of
        Some u \<Rightarrow> u
      | None \<Rightarrow> c)"

fun compareIgnoreCase :: "string \<Rightarrow> string \<Rightarrow> int" where
  "compareIgnoreCase [] [] = 0"
| "compareIgnoreCase [] (b # bs) = - 1"
| "compareIgnoreCase (a # as) [] = 1"
| "compareIgnoreCase (a # as) (b # bs) =
     (if a = b then compareIgnoreCase as bs
      else let diff = int (of_char (toUpperAscii a)) - int (of_char (toUpperAscii b)) in
        if diff = 0 then compareIgnoreCase as bs else diff)"

text \<open>
  \<^verbatim>\<open>
  export function areSameExtensions(a: IExtensionIdentifier, b: IExtensionIdentifier): boolean {
      if (a.uuid && b.uuid) { return a.uuid === b.uuid; }
      if (a.id === b.id) { return true; }
      return compareIgnoreCase(a.id, b.id) === 0;
  }
  \<close>
\<close>

definition areSameExtensions :: "IExtensionIdentifier \<Rightarrow> IExtensionIdentifier \<Rightarrow> bool" where
  "areSameExtensions a b =
     (if truthy (uuid a) \<and> truthy (uuid b) then uuid a = uuid b
      else if id' a = id' b then True
      else compareIgnoreCase (id' a) (id' b) = 0)"

section \<open>Extension keys\<close>

text \<open>
  Modelled from the spec: the enumeration \<open>TargetPlatform\<close> is declared in
  \<open>vs/platform/extensions/common/extensions\<close>, which is not among the sources. The spec describes
  it as an opaque string-like tag (\<open>win32-x64\<close>, \<open>darwin-arm64\<close>, \<open>UNKNOWN\<close>, ...) with the
  sentinel \<open>UNDEFINED\<close> for "platform-agnostic". At run time a target platform is a string
  (\<open>parse\<close> casts the text of a capture group to it), so it is modelled as a string, and the
  sentinel as the string \<open>undefined\<close>.
\<close>

definition UNDEFINED :: string where
  "UNDEFINED = ''undefined''"

text \<open>
  An instance of the class \<open>ExtensionKey\<close> has the fields \<open>id\<close>, \<open>version\<close> and
  \<open>targetPlatform\<close>, and no \<open>uuid\<close>.
\<close>

record ExtensionKey =
  key_id :: string
  version :: string
  targetPlatform :: string

text \<open>
  \<^verbatim>\<open>
  constructor(identifier: IExtensionIdentifier, readonly version: string,
      readonly targetPlatform: TargetPlatform = TargetPlatform.UNDEFINED) {
      this.id = identifier.id;
  }
  \<close>
  The default value of the third parameter is taken when the argument is \<open>undefined\<close>.
\<close>

definition new_ExtensionKey :: "IExtensionIdentifier \<Rightarrow> string \<Rightarrow> string option \<Rightarrow> ExtensionKey" where
  "new_ExtensionKey identifier v tp =
     \<lparr>key_id = id' identifier, version = v,
      targetPlatform = (case tp of None \<Rightarrow> UNDEFINED | Some p \<Rightarrow> p)\<rparr>"

subsection \<open>The regular expression of keys\<close>

text \<open>
  \<^verbatim>\<open>const ExtensionKeyRegex = /^([^.]+\..+)-(\d+\.\d+\.\d+)(-(.+))?$/;\<close>

  The regular expressions needed are built from character classes, the greedy \<open>+\<close> on a
  character class, sequencing, the greedy \<open>?\<close>, numbered capture groups and the end anchor
  \<open>$\<close>. The expression starts with \<open>^\<close> and has no flags, so a match can only start at the
  first character: matching is modelled from there.
\<close>

datatype regex =
    Cls "char \<Rightarrow> bool"
  | Plus "char \<Rightarrow> bool"
  | Seq regex regex
  | Opt regex
  | Grp nat regex
  | Eol

type_synonym captures = "(nat \<times> string) list"

text \<open>
  \<open>plus_ends p s\<close> lists what can remain of \<open>s\<close> after one or more characters of class \<open>p\<close>,
  in the order in which a backtracking matcher tries them: the longest run first.
\<close>

fun plus_ends :: "(char \<Rightarrow> bool) \<Rightarrow> string \<Rightarrow> string list" where
  "plus_ends p [] = []"
| "plus_ends p (c # s) = (if p c then plus_ends p s @ [s] else [])"

text \<open>
  \<open>rx r s\<close> lists all ways in which \<open>r\<close> matches a prefix of \<open>s\<close>, in the order of
  backtracking: each is the text of the capture groups that took part and the rest of \<open>s\<close>.
  A group captures what was consumed between its start and its end.
\<close>

fun rx :: "regex \<Rightarrow> string \<Rightarrow> (captures \<times> string) list" where
  "rx (Cls p) s = (case s of [] \<Rightarrow> [] | c # t \<Rightarrow> if p c then [([], t)] else [])"
| "rx (Plus p) s = map (\<lambda>t. ([], t)) (plus_ends p s)"
| "rx (Seq a b) s = concat (map (\<lambda>(ca, t). map (\<lambda>(cb, u). (ca @ cb, u)) (rx b t)) (rx a s))"
| "rx (Opt a) s = rx a s @ [([], s)]"
| "rx (Grp n a) s = map (\<lambda>(ca, t). ((n, take (length s - length t) s) # ca, t)) (rx a s)"
| "rx Eol s = (if s = [] then [([], [])] else [])"

text \<open>
  \<open>RegExp.prototype.exec\<close>: the first match in backtracking order, or \<open>null\<close>. In the result,
  \<open>matches[i]\<close> is \<open>map_of matches i\<close>; a group that took no part is \<open>undefined\<close>.
\<close>

definition exec :: "regex \<Rightarrow> string \<Rightarrow> captures option" where
  "exec r s = (case rx r s of [] \<Rightarrow> None | (caps, t) # ms \<Rightarrow> Some caps)"

text \<open>
  The character classes: \<open>[^.]\<close>, the dot (any character but a line terminator; of the line
  terminators of JavaScript, line feed and carriage return are 8-bit characters), \<open>\d\<close>, and a
  literal character.
\<close>

definition notDot :: "char \<Rightarrow> bool" where
  "notDot c = (c \<noteq> CHR ''.'')"

definition anyChar :: "char \<Rightarrow> bool" where
  "anyChar c = (c \<noteq> CHR 0x0A \<and> c \<noteq> CHR 0x0D)"

definition digit :: "char \<Rightarrow> bool" where
  "digit c = (c \<in> set ''0123456789'')"

definition lit :: "char \<Rightarrow> char \<Rightarrow> bool" where
  "lit x c = (c = x)"

definition ExtensionKeyRegex :: regex where
  "ExtensionKeyRegex =
     Seq (Grp 1 (Seq (Plus notDot) (Seq (Cls (lit CHR ''.'')) (Plus anyChar))))
    (Seq (Cls (lit CHR ''-''))
    (Seq (Grp 2 (Seq (Plus digit) (Seq (Cls (lit CHR ''.''))
                (Seq (Plus digit) (Seq (Cls (lit CHR ''.'')) (Plus digit))))))
    (Seq (Opt (Grp 3 (Seq (Cls (lit CHR ''-'')) (Grp 4 (Plus anyChar)))))
     Eol)))"

subsection \<open>parse, toString, equals\<close>

text \<open>
  \<^verbatim>\<open>
  static parse(key: string): ExtensionKey | null {
      const matches = ExtensionKeyRegex.exec(key);
      return matches && matches[1] && matches[2]
          ? new ExtensionKey({ id: matches[1] }, matches[2], matches[4] as TargetPlatform || undefined)
          : null;
  }
  \<close>
\<close>

definition parse :: "string \<Rightarrow> ExtensionKey option" where
  "parse key =
     (case exec ExtensionKeyRegex key of
        None \<Rightarrow> None
      | Some matches \<Rightarrow>
          (case (map_of matches 1, map_of matches 2) of
             (Some m1, Some m2) \<Rightarrow>
               if m1 \<noteq> [] \<and> m2 \<noteq> []
               then Some (new_ExtensionKey \<lparr>id' = m1, uuid = None\<rparr> m2
                            (if truthy (map_of matches 4) then map_of matches 4 else None))
               else None
           | _ \<Rightarrow> None))"

text \<open>
  \<^verbatim>\<open>
  toString(): string {
      return `${this.id}-${this.version}${this.targetPlatform !== TargetPlatform.UNDEFINED
          ? `-${this.targetPlatform}` : ''}`;
  }
  \<close>
\<close>

definition toString :: "ExtensionKey \<Rightarrow> string" where
  "toString k =
     key_id k @ ''-'' @ version k
       @ (if targetPlatform k \<noteq> UNDEFINED then ''-'' @ targetPlatform k else '''')"

text \<open>
  \<^verbatim>\<open>
  equals(o: any): boolean {
      if (!(o instanceof ExtensionKey)) { return false; }
      return areSameExtensions(this, o) && this.version === o.version
          && this.targetPlatform === o.targetPlatform;
  }
  \<close>
  The argument is any value: \<open>None\<close> stands for a value that is no \<open>ExtensionKey\<close> (such as
  the \<open>null\<close> of \<open>parse\<close>). An \<open>ExtensionKey\<close> passed to \<open>areSameExtensions\<close> has an \<open>id\<close>
  and no \<open>uuid\<close>.
\<close>

definition equals :: "ExtensionKey \<Rightarrow> ExtensionKey option \<Rightarrow> bool" where
  "equals this other =
     (case other of
        None \<Rightarrow> False
      | Some o' \<Rightarrow>
          areSameExtensions \<lparr>id' = key_id this, uuid = None\<rparr> \<lparr>id' = key_id o', uuid = None\<rparr>
          \<and> version this = version o' \<and> targetPlatform this = targetPlatform o')"

subsection \<open>The key pattern in the words of the specification\<close>

text \<open>
  The specification describes the strings that \<open>parse\<close> accepts as
  \<open><id>-<major.minor.patch>[-<targetPlatform>]\<close>, where the id contains at least one dot and
  the version is three dot-separated integer runs. \<open>matchesKeyPattern\<close> states this
  description, by search over the ways to split the string.
\<close>

fun splits :: "'a list \<Rightarrow> ('a list \<times> 'a list) list" where
  "splits [] = [([], [])]"
| "splits (x # xs) = ([], x # xs) # map (\<lambda>(p, s). (x # p, s)) (splits xs)"

definition digitRun :: "string \<Rightarrow> bool" where
  "digitRun s = (s \<noteq> [] \<and> list_all digit s)"

definition isVersion :: "string \<Rightarrow> bool" where
  "isVersion v =
     list_ex (\<lambda>(a, r). digitRun a \<and> (case r of [] \<Rightarrow> False | d # r' \<Rightarrow> d = CHR ''.'' \<and>
       list_ex (\<lambda>(b, r2). digitRun b \<and> (case r2 of [] \<Rightarrow> False | e # c \<Rightarrow> e = CHR ''.'' \<and> digitRun c))
         (splits r'))) (splits v)"

definition matchesKeyPattern :: "string \<Rightarrow> bool" where
  "matchesKeyPattern key =
     list_ex (\<lambda>(ident, r). CHR ''.'' \<in> set ident \<and> (case r of [] \<Rightarrow> False | d # r' \<Rightarrow> d = CHR ''-'' \<and>
       list_ex (\<lambda>(v, sfx). isVersion v \<and> (case sfx of [] \<Rightarrow> True | e # tp \<Rightarrow> e = CHR ''-'' \<and> tp \<noteq> []))
         (splits r'))) (splits key)"

section \<open>Creating a key from an extension\<close>

text \<open>
  \<^verbatim>\<open>
  static create(extension: ILocalExtension | IGalleryExtension): ExtensionKey {
      const version = (extension as ILocalExtension).manifest
          ? (extension as ILocalExtension).manifest.version
          : (extension as IGalleryExtension).version;
      const targetPlatform = (extension as ILocalExtension).manifest
          ? (extension as ILocalExtension).targetPlatform
          : (extension as IGalleryExtension).properties.targetPlatform;
      return new ExtensionKey(extension.identifier, version, targetPlatform);
  }
  \<close>
  \<open>create\<close> probes the shape of its argument at run time. The argument is modelled as the
  object that arrives, each property present or \<open>undefined\<close>: an installed extension has
  \<open>identifier\<close>, \<open>manifest.version\<close> and \<open>targetPlatform\<close>; an extension of the remote catalog
  has \<open>identifier\<close>, \<open>version\<close> and \<open>properties.targetPlatform\<close>. Reading a property of
  \<open>undefined\<close> throws a \<open>TypeError\<close>, which carries the name of the property read. The version
  of the key that is built is \<open>undefined\<close> when the property read for it is.
\<close>

datatype error = TypeError string

record ManifestObject =
  manifest_version :: "string option"

record PropertiesObject =
  properties_targetPlatform :: "string option"

record ExtensionObject =
  obj_identifier :: "IExtensionIdentifier option"
  obj_manifest :: "ManifestObject option"
  obj_targetPlatform :: "string option"
  obj_version :: "string option"
  obj_properties :: "PropertiesObject option"

record CreatedKey =
  created_id :: string
  created_version :: "string option"
  created_targetPlatform :: string

definition create :: "ExtensionObject \<Rightarrow> error + CreatedKey" where
  "create extension =
     (let v = (case obj_manifest extension of
                 Some m \<Rightarrow> manifest_version m
               | None \<Rightarrow> obj_version extension)
      in case (case obj_manifest extension of
                 Some m \<Rightarrow> Inr (obj_targetPlatform extension)
               | None \<Rightarrow> (case obj_properties extension of
                            None \<Rightarrow> Inl (TypeError ''targetPlatform'')
                          | Some props \<Rightarrow> Inr (properties_targetPlatform props))) of
           Inl e \<Rightarrow> Inl e
         | Inr tp \<Rightarrow>
             (case obj_identifier extension of
                None \<Rightarrow> Inl (TypeError ''id'')
              | Some ident \<Rightarrow>
                  Inr \<lparr>created_id = id' ident, created_version = v,
                       created_targetPlatform = (case tp of None \<Rightarrow> UNDEFINED | Some p \<Rightarrow> p)\<rparr>))"

text \<open>The two shapes that the specification asks of the argument of \<open>create\<close>.\<close>

definition installedShape :: "ExtensionObject \<Rightarrow> bool" where
  "installedShape extension =
     (obj_identifier extension \<noteq> None
      \<and> (case obj_manifest extension of None \<Rightarrow> False | Some m \<Rightarrow> manifest_version m \<noteq> None)
      \<and> obj_targetPlatform extension \<noteq> None)"

definition remoteShape :: "ExtensionObject \<Rightarrow> bool" where
  "remoteShape extension =
     (obj_identifier extension \<noteq> None
      \<and> obj_manifest extension = None
      \<and> obj_version extension \<noteq> None
      \<and> (case obj_properties extension of
            None \<Rightarrow> False
          | Some props \<Rightarrow> properties_targetPlatform props \<noteq> None))"

section \<open>Grouping by extension\<close>

text \<open>
  \<^verbatim>\<open>
  export function groupByExtension<T>(extensions: T[],
          getExtensionIdentifier: (t: T) => IExtensionIdentifier): T[][] {
      const byExtension: T[][] = [];
      const findGroup = (extension: T) => {
          for (const group of byExtension) {
              if (group.some(e => areSameExtensions(getExtensionIdentifier(e),
                                                    getExtensionIdentifier(extension)))) {
                  return group;
              }
          }
          return null;
      };
      for (const extension of extensions) {
          const group = findGroup(extension);
          if (group) { group.push(extension); } else { byExtension.push([extension]); }
      }
      return byExtension;
  }
  \<close>
  \<open>findGroup\<close> returns a reference to a group of \<open>byExtension\<close>, and \<open>push\<close> changes that group
  in place: the model returns the index of the group and updates the list of groups there.
\<close>

fun findGroup :: "('t \<Rightarrow> IExtensionIdentifier) \<Rightarrow> 't list list \<Rightarrow> 't \<Rightarrow> nat option" where
  "findGroup getExtensionIdentifier [] extension = None"
| "findGroup getExtensionIdentifier (grp # byExtension) extension =
     (if list_ex (\<lambda>e. areSameExtensions (getExtensionIdentifier e)
                        (getExtensionIdentifier extension)) grp
      then Some 0
      else map_option Suc (findGroup getExtensionIdentifier byExtension extension))"

definition groupByExtension_step ::
  "('t \<Rightarrow> IExtensionIdentifier) \<Rightarrow> 't list list \<Rightarrow> 't \<Rightarrow> 't list list" where
  "groupByExtension_step getExtensionIdentifier byExtension extension =
     (case findGroup getExtensionIdentifier byExtension extension of
        Some i \<Rightarrow> byExtension[i := byExtension ! i @ [extension]]
      | None \<Rightarrow> byExtension @ [[extension]])"

definition groupByExtension :: "'t list \<Rightarrow> ('t \<Rightarrow> IExtensionIdentifier) \<Rightarrow> 't list list" where
  "groupByExtension extensions getExtensionIdentifier =
     foldl (groupByExtension_step getExtensionIdentifier) [] extensions"

text \<open>
  The identity classes of the specification: the class of an input is the list of the inputs
  that are the same extension as it, and \<open>identityClasses\<close> lists the distinct classes.
\<close>

definition identityClasses :: "('t \<Rightarrow> IExtensionIdentifier) \<Rightarrow> 't list \<Rightarrow> 't list list" where
  "identityClasses getExtensionIdentifier extensions =
     remdups (map (\<lambda>x. filter (\<lambda>y. areSameExtensions (getExtensionIdentifier x)
                                       (getExtensionIdentifier y)) extensions) extensions)"

text \<open>
  The groups are separated when no group is empty, the members of a group are the same extension
  pairwise, and no member of a group is the same extension as a member of a later group.
\<close>

fun separated :: "('t \<Rightarrow> 't \<Rightarrow> bool) \<Rightarrow> 't list list \<Rightarrow> bool" where
  "separated R [] = True"
| "separated R (G # gs) =
     (G \<noteq> [] \<and> (\<forall>x\<in>set G. \<forall>y\<in>set G. R x y)
      \<and> (\<forall>x\<in>set G. \<forall>y\<in>set (concat gs). \<not> R x y) \<and> separated R gs)"

section \<open>Dependencies of an extension\<close>

text \<open>
  Of an extension, the identifier and the optional list \<open>manifest.extensionDependencies\<close> of
  dependency ids are read.
\<close>

record IExtensionManifest =
  extensionDependencies :: "string list option"

record IExtension =
  "identifier" :: IExtensionIdentifier
  manifest :: IExtensionManifest

text \<open>The expression \<^verbatim>\<open>e.manifest.extensionDependencies?.slice(0) ?? []\<close>.\<close>

definition dependencyIds :: "IExtension \<Rightarrow> string list" where
  "dependencyIds e = (case extensionDependencies (manifest e) of None \<Rightarrow> [] | Some ids \<Rightarrow> ids)"

text \<open>
  \<^verbatim>\<open>
  export function getExtensionDependencies(installedExtensions: ReadonlyArray<IExtension>,
          extension: IExtension): IExtension[] {
      const dependencies: IExtension[] = [];
      const extensions = extension.manifest.extensionDependencies?.slice(0) ?? [];
      while (extensions.length) {
          const id = extensions.shift();
          if (id && dependencies.every(e => !areSameExtensions(e.identifier, { id }))) {
              const ext = installedExtensions.filter(e => areSameExtensions(e.identifier, { id }));
              if (ext.length === 1) {
                  dependencies.push(ext[0]);
                  extensions.push(...ext[0].manifest.extensionDependencies?.slice(0) ?? []);
              }
          }
      }
      return dependencies;
  }
  \<close>
  The loop is a recursive function of the two arrays that it changes, \<open>dependencies\<close> and
  \<open>extensions\<close>. Nothing in its text bounds the number of its rounds, so it is defined as a
  partial function: \<open>None\<close> is a run that does not end. The test \<open>id && ...\<close> reads the
  truthiness of a string: the empty id is skipped.
\<close>

partial_function (option) dependencies_loop ::
  "IExtension list \<Rightarrow> IExtension list \<Rightarrow> string list \<Rightarrow> IExtension list option" where
  "dependencies_loop installedExtensions dependencies extensions =
     (if extensions \<noteq> [] then
        (let depId = hd extensions; extensions = tl extensions in
           if depId \<noteq> []
              \<and> list_all (\<lambda>e. \<not> areSameExtensions (identifier e) \<lparr>id' = depId, uuid = None\<rparr>)
                    dependencies
           then
             (let ext = filter (\<lambda>e. areSameExtensions (identifier e) \<lparr>id' = depId, uuid = None\<rparr>)
                          installedExtensions
              in if length ext = 1
                 then dependencies_loop installedExtensions (dependencies @ [ext ! 0])
                        (extensions @ dependencyIds (ext ! 0))
                 else dependencies_loop installedExtensions dependencies extensions)
           else dependencies_loop installedExtensions dependencies extensions)
      else Some dependencies)"

definition getExtensionDependencies :: "IExtension list \<Rightarrow> IExtension \<Rightarrow> IExtension list option" where
  "getExtensionDependencies installedExtensions extension =
     dependencies_loop installedExtensions [] (dependencyIds extension)"

section \<open>Properties of the identity comparison\<close>

lemma compareIgnoreCase_zero_iff:
  "compareIgnoreCase a b = 0 \<longleftrightarrow> map toUpperAscii a = map toUpperAscii b"
  by (induction a b rule: compareIgnoreCase.induct) (auto simp: Let_def)

lemma compareIgnoreCase_refl: "compareIgnoreCase a a = 0"
  by (simp add: compareIgnoreCase_zero_iff)

lemma compareIgnoreCase_sym: "compareIgnoreCase a b = 0 \<longleftrightarrow> compareIgnoreCase b a = 0"
  by (auto simp: compareIgnoreCase_zero_iff)

lemma compareIgnoreCase_trans:
  "compareIgnoreCase a b = 0 \<Longrightarrow> compareIgnoreCase b c = 0 \<Longrightarrow> compareIgnoreCase a c = 0"
  by (simp add: compareIgnoreCase_zero_iff)

lemma areSameExtensions_refl: "areSameExtensions a a"
  by (simp add: areSameExtensions_def)

lemma areSameExtensions_sym: "areSameExtensions a b \<longleftrightarrow> areSameExtensions b a"
  unfolding areSameExtensions_def using compareIgnoreCase_sym [of "id' a" "id' b"] by auto

text \<open>
  Claim C3, as stated: when both uuid fields are present, the result is the equality of the two
  uuids. The test of the source is the truthiness of the uuids, and an empty uuid is falsy: two
  identifiers that both carry the uuid \<open>""\<close> and have different ids have equal uuids and are not
  the same extension.
\<close>

theorem areSameExtensions_empty_uuid_counterexample:
  "uuid \<lparr>id' = ''x'', uuid = Some ''''\<rparr> \<noteq> None
   \<and> uuid \<lparr>id' = ''y'', uuid = Some ''''\<rparr> \<noteq> None
   \<and> areSameExtensions \<lparr>id' = ''x'', uuid = Some ''''\<rparr> \<lparr>id' = ''y'', uuid = Some ''''\<rparr>
       \<noteq> (uuid \<lparr>id' = ''x'', uuid = Some ''''\<rparr> = uuid \<lparr>id' = ''y'', uuid = Some ''''\<rparr>)"
  by (simp add: areSameExtensions_def truthy_def toUpperAscii_def)

text \<open>
  Claim C3, amended: when both uuids are present and not empty, \<open>areSameExtensions\<close> returns the
  equality of the two uuids, whatever the ids are.
\<close>

theorem areSameExtensions_uuid:
  "ua \<noteq> [] \<Longrightarrow> ub \<noteq> [] \<Longrightarrow>
     areSameExtensions \<lparr>id' = ia, uuid = Some ua\<rparr> \<lparr>id' = ib, uuid = Some ub\<rparr> = (ua = ub)"
  by (simp add: areSameExtensions_def truthy_def)

theorem areSameExtensions_uuid_witness:
  "''1'' \<noteq> [] \<and> ''2'' \<noteq> []
   \<and> areSameExtensions \<lparr>id' = ''a.b'', uuid = Some ''1''\<rparr> \<lparr>id' = ''c.d'', uuid = Some ''1''\<rparr>
   \<and> \<not> areSameExtensions \<lparr>id' = ''a.b'', uuid = Some ''1''\<rparr> \<lparr>id' = ''a.b'', uuid = Some ''2''\<rparr>"
  using areSameExtensions_uuid [of "''1''" "''1''" "''a.b''" "''c.d''"]
    areSameExtensions_uuid [of "''1''" "''2''" "''a.b''" "''a.b''"]
  by simp

text \<open>
  Claim C9: \<open>areSameExtensions\<close> is reflexive and symmetric.
\<close>

theorem areSameExtensions_reflexive_symmetric:
  "areSameExtensions a a \<and> areSameExtensions a b = areSameExtensions b a"
  using areSameExtensions_refl [of a] areSameExtensions_sym [of a b] by simp

text \<open>
  Claim C10: \<open>areSameExtensions\<close> is not transitive. The identifier \<open>{id: "x"}\<close> without uuid is
  the same extension as \<open>{id: "x", uuid: "1"}\<close> and as \<open>{id: "x", uuid: "2"}\<close>, which are
  told apart by their uuids.
\<close>

theorem areSameExtensions_not_transitive:
  "areSameExtensions \<lparr>id' = ''x'', uuid = Some ''1''\<rparr> \<lparr>id' = ''x'', uuid = None\<rparr>
   \<and> areSameExtensions \<lparr>id' = ''x'', uuid = None\<rparr> \<lparr>id' = ''x'', uuid = Some ''2''\<rparr>
   \<and> \<not> areSameExtensions \<lparr>id' = ''x'', uuid = Some ''1''\<rparr> \<lparr>id' = ''x'', uuid = Some ''2''\<rparr>"
  by (simp add: areSameExtensions_def truthy_def)

section \<open>Properties of the key regular expression\<close>

lemma plus_ends_iff:
  "t \<in> set (plus_ends p s) \<longleftrightarrow> (\<exists>xs. xs \<noteq> [] \<and> s = xs @ t \<and> (\<forall>c\<in>set xs. p c))"
proof (induction s)
  case Nil
  then show ?case by simp
next
  case (Cons a s)
  show ?case
  proof
    assume "t \<in> set (plus_ends p (a # s))"
    then have pa: "p a" and "t = s \<or> t \<in> set (plus_ends p s)"
      by (auto split: if_splits)
    then show "\<exists>xs. xs \<noteq> [] \<and> a # s = xs @ t \<and> (\<forall>c\<in>set xs. p c)"
    proof (elim disjE)
      assume "t = s"
      with pa show ?thesis by (intro exI [of _ "[a]"]) simp
    next
      assume "t \<in> set (plus_ends p s)"
      with Cons.IH obtain xs where "xs \<noteq> []" "s = xs @ t" "\<forall>c\<in>set xs. p c" by blast
      with pa show ?thesis by (intro exI [of _ "a # xs"]) simp
    qed
  next
    assume "\<exists>xs. xs \<noteq> [] \<and> a # s = xs @ t \<and> (\<forall>c\<in>set xs. p c)"
    then obtain xs where xs: "xs \<noteq> []" "a # s = xs @ t" "\<forall>c\<in>set xs. p c" by blast
    then obtain ys where ys: "xs = a # ys" by (cases xs) auto
    with xs have pa: "p a" and s: "s = ys @ t" and all: "\<forall>c\<in>set ys. p c" by auto
    show "t \<in> set (plus_ends p (a # s))"
    proof (cases "ys = []")
      case True
      with pa s show ?thesis by simp
    next
      case False
      with s all Cons.IH have "t \<in> set (plus_ends p s)" by blast
      with pa show ?thesis by simp
    qed
  qed
qed

lemma rx_Cls_iff:
  "(c, t) \<in> set (rx (Cls p) s) \<longleftrightarrow> (\<exists>x. s = x # t \<and> p x \<and> c = [])"
  by (cases s) auto

lemma rx_Plus_iff:
  "(c, t) \<in> set (rx (Plus p) s) \<longleftrightarrow> (\<exists>xs. xs \<noteq> [] \<and> s = xs @ t \<and> (\<forall>x\<in>set xs. p x) \<and> c = [])"
  using plus_ends_iff [of t p s] by auto

lemma rx_Seq_iff:
  "(c, u) \<in> set (rx (Seq a b) s) \<longleftrightarrow>
     (\<exists>ca t cb. (ca, t) \<in> set (rx a s) \<and> (cb, u) \<in> set (rx b t) \<and> c = ca @ cb)"
  by (auto; force)

lemma rx_Opt_iff:
  "(c, t) \<in> set (rx (Opt a) s) \<longleftrightarrow> (c, t) \<in> set (rx a s) \<or> (c = [] \<and> t = s)"
  by auto

lemma rx_Grp_iff:
  "(c, t) \<in> set (rx (Grp n a) s) \<longleftrightarrow>
     (\<exists>ca. (ca, t) \<in> set (rx a s) \<and> c = (n, take (length s - length t) s) # ca)"
  by (auto; force)

lemma rx_Eol_iff: "(c, t) \<in> set (rx Eol s) \<longleftrightarrow> s = [] \<and> c = [] \<and> t = []"
  by auto

lemmas rx_iffs = rx_Cls_iff rx_Plus_iff rx_Seq_iff rx_Opt_iff rx_Grp_iff rx_Eol_iff

lemma rx_id_part:
  assumes "(c, t) \<in> set (rx (Grp 1 (Seq (Plus notDot) (Seq (Cls (lit CHR ''.'')) (Plus anyChar)))) s)"
  shows "\<exists>p q. s = (p @ ''.'' @ q) @ t \<and> p \<noteq> [] \<and> (\<forall>x\<in>set p. notDot x)
           \<and> q \<noteq> [] \<and> (\<forall>x\<in>set q. anyChar x) \<and> c = [(1, p @ ''.'' @ q)]"
  using assms unfolding rx_iffs by (auto simp: lit_def) blast

lemma rx_version_part:
  assumes "(c, t) \<in> set (rx (Grp 2 (Seq (Plus digit) (Seq (Cls (lit CHR ''.''))
                (Seq (Plus digit) (Seq (Cls (lit CHR ''.'')) (Plus digit)))))) s)"
  shows "\<exists>a b d. s = (a @ ''.'' @ b @ ''.'' @ d) @ t \<and> a \<noteq> [] \<and> (\<forall>x\<in>set a. digit x)
           \<and> b \<noteq> [] \<and> (\<forall>x\<in>set b. digit x) \<and> d \<noteq> [] \<and> (\<forall>x\<in>set d. digit x)
           \<and> c = [(2, a @ ''.'' @ b @ ''.'' @ d)]"
  using assms unfolding rx_iffs by (auto simp: lit_def) blast

lemma rx_platform_part:
  assumes "(c, t) \<in> set (rx (Seq (Opt (Grp 3 (Seq (Cls (lit CHR ''-'')) (Grp 4 (Plus anyChar))))) Eol) s)"
  shows "t = [] \<and> (s = [] \<and> c = [] \<or>
           (\<exists>tp. s = ''-'' @ tp \<and> tp \<noteq> [] \<and> (\<forall>x\<in>set tp. anyChar x) \<and> c = [(3, s), (4, tp)]))"
  using assms unfolding rx_iffs by (auto simp: lit_def)

lemma ExtensionKeyRegex_sound:
  assumes "(caps, t) \<in> set (rx ExtensionKeyRegex s)"
  shows "\<exists>p q a b d sfx.
           s = (p @ ''.'' @ q) @ ''-'' @ (a @ ''.'' @ b @ ''.'' @ d) @ sfx
         \<and> p \<noteq> [] \<and> (\<forall>x\<in>set p. notDot x) \<and> q \<noteq> [] \<and> (\<forall>x\<in>set q. anyChar x)
         \<and> a \<noteq> [] \<and> (\<forall>x\<in>set a. digit x) \<and> b \<noteq> [] \<and> (\<forall>x\<in>set b. digit x)
         \<and> d \<noteq> [] \<and> (\<forall>x\<in>set d. digit x)
         \<and> (sfx = [] \<and> caps = [(1, p @ ''.'' @ q), (2, a @ ''.'' @ b @ ''.'' @ d)]
            \<or> (\<exists>tp. sfx = ''-'' @ tp \<and> tp \<noteq> [] \<and> (\<forall>x\<in>set tp. anyChar x)
                 \<and> caps = [(1, p @ ''.'' @ q), (2, a @ ''.'' @ b @ ''.'' @ d), (3, sfx), (4, tp)]))"
proof -
  from assms obtain c1 t1 c2 t2 c3 t3 c4 where
    g1: "(c1, t1) \<in> set (rx (Grp 1 (Seq (Plus notDot) (Seq (Cls (lit CHR ''.'')) (Plus anyChar)))) s)"
    and dash: "(c2, t2) \<in> set (rx (Cls (lit CHR ''-'')) t1)"
    and g2: "(c3, t3) \<in> set (rx (Grp 2 (Seq (Plus digit) (Seq (Cls (lit CHR ''.''))
                (Seq (Plus digit) (Seq (Cls (lit CHR ''.'')) (Plus digit)))))) t2)"
    and g34: "(c4, t) \<in> set (rx (Seq (Opt (Grp 3 (Seq (Cls (lit CHR ''-'')) (Grp 4 (Plus anyChar))))) Eol) t3)"
    and caps: "caps = c1 @ c2 @ c3 @ c4"
    unfolding ExtensionKeyRegex_def rx_Seq_iff [of _ _ "Grp 1 _"] rx_Seq_iff [of _ _ "Cls _"]
      rx_Seq_iff [of _ _ "Grp 2 _"]
    by blast
  from rx_id_part [OF g1] obtain p q where
    1: "s = (p @ ''.'' @ q) @ t1" "p \<noteq> []" "\<forall>x\<in>set p. notDot x" "q \<noteq> []" "\<forall>x\<in>set q. anyChar x"
       "c1 = [(1, p @ ''.'' @ q)]" by blast
  from dash have 2: "t1 = ''-'' @ t2" "c2 = []" by (auto simp: rx_Cls_iff lit_def)
  from rx_version_part [OF g2] obtain a b d where
    3: "t2 = (a @ ''.'' @ b @ ''.'' @ d) @ t3" "a \<noteq> []" "\<forall>x\<in>set a. digit x"
       "b \<noteq> []" "\<forall>x\<in>set b. digit x" "d \<noteq> []" "\<forall>x\<in>set d. digit x"
       "c3 = [(2, a @ ''.'' @ b @ ''.'' @ d)]" by blast
  from rx_platform_part [OF g34] have
    4: "t3 = [] \<and> c4 = [] \<or>
         (\<exists>tp. t3 = ''-'' @ tp \<and> tp \<noteq> [] \<and> (\<forall>x\<in>set tp. anyChar x) \<and> c4 = [(3, t3), (4, tp)])"
    by blast
  show ?thesis
    apply (rule exI [of _ p], rule exI [of _ q], rule exI [of _ a], rule exI [of _ b],
        rule exI [of _ d], rule exI [of _ t3])
    using 1 2 3 4 caps by auto
qed

lemma splits_iff: "(p, s) \<in> set (splits xs) \<longleftrightarrow> p @ s = xs"
proof (induction xs arbitrary: p)
  case Nil
  then show ?case by auto
next
  case (Cons x xs)
  then show ?case by (cases p) auto
qed

lemma list_ex_splitsI: "P (p, s) \<Longrightarrow> list_ex P (splits (p @ s))"
  unfolding list_ex_iff using splits_iff [of p s "p @ s"] by blast

lemma digitRun_iff: "digitRun s \<longleftrightarrow> s \<noteq> [] \<and> (\<forall>x\<in>set s. digit x)"
  by (simp add: digitRun_def list_all_iff)

lemma isVersion_iff:
  "isVersion v \<longleftrightarrow> (\<exists>a b d. v = a @ ''.'' @ b @ ''.'' @ d \<and> digitRun a \<and> digitRun b \<and> digitRun d)"
proof
  assume "isVersion v"
  then obtain a r where ar: "a @ r = v" "digitRun a"
    and r: "(case r of [] \<Rightarrow> False | x # r' \<Rightarrow> x = CHR ''.'' \<and>
       list_ex (\<lambda>(b, r2). digitRun b \<and> (case r2 of [] \<Rightarrow> False | e # c \<Rightarrow> e = CHR ''.'' \<and> digitRun c))
         (splits r'))"
    unfolding isVersion_def list_ex_iff by (auto simp: splits_iff)
  from r obtain r' where r': "r = CHR ''.'' # r'"
    and ex: "list_ex (\<lambda>(b, r2). digitRun b \<and> (case r2 of [] \<Rightarrow> False | e # c \<Rightarrow> e = CHR ''.'' \<and> digitRun c))
         (splits r')"
    by (cases r) auto
  from ex obtain b r2 where b: "b @ r2 = r'" "digitRun b"
    and r2: "(case r2 of [] \<Rightarrow> False | e # c \<Rightarrow> e = CHR ''.'' \<and> digitRun c)"
    unfolding list_ex_iff by (auto simp: splits_iff)
  from r2 obtain d where "r2 = CHR ''.'' # d" "digitRun d" by (cases r2) auto
  with ar r' b show "\<exists>a b d. v = a @ ''.'' @ b @ ''.'' @ d \<and> digitRun a \<and> digitRun b \<and> digitRun d"
    by auto
next
  assume "\<exists>a b d. v = a @ ''.'' @ b @ ''.'' @ d \<and> digitRun a \<and> digitRun b \<and> digitRun d"
  then obtain a b d where v: "v = a @ ''.'' @ b @ ''.'' @ d" and ds: "digitRun a" "digitRun b" "digitRun d"
    by blast
  have inner: "list_ex (\<lambda>(b, r2). digitRun b \<and> (case r2 of [] \<Rightarrow> False | e # c \<Rightarrow> e = CHR ''.'' \<and> digitRun c))
         (splits (b @ CHR ''.'' # d))"
    by (rule list_ex_splitsI) (simp add: ds)
  have "v = a @ CHR ''.'' # b @ CHR ''.'' # d" by (simp add: v)
  then show "isVersion v"
    unfolding isVersion_def by (simp only:) (rule list_ex_splitsI, simp add: ds inner)
qed

lemma matchesKeyPattern_iff:
  "matchesKeyPattern key \<longleftrightarrow>
     (\<exists>ident v sfx. key = ident @ ''-'' @ v @ sfx \<and> CHR ''.'' \<in> set ident \<and> isVersion v
        \<and> (sfx = [] \<or> (\<exists>tp. sfx = ''-'' @ tp \<and> tp \<noteq> [])))"
proof
  assume "matchesKeyPattern key"
  then obtain ident r where ir: "ident @ r = key" "CHR ''.'' \<in> set ident"
    and r: "(case r of [] \<Rightarrow> False | x # r' \<Rightarrow> x = CHR ''-'' \<and>
       list_ex (\<lambda>(v, sfx). isVersion v \<and> (case sfx of [] \<Rightarrow> True | e # tp \<Rightarrow> e = CHR ''-'' \<and> tp \<noteq> []))
         (splits r'))"
    unfolding matchesKeyPattern_def list_ex_iff by (auto simp: splits_iff)
  from r obtain r' where r': "r = CHR ''-'' # r'"
    and ex: "list_ex (\<lambda>(v, sfx). isVersion v \<and> (case sfx of [] \<Rightarrow> True | e # tp \<Rightarrow> e = CHR ''-'' \<and> tp \<noteq> []))
         (splits r')"
    by (cases r) auto
  from ex obtain v sfx where v: "v @ sfx = r'" "isVersion v"
    and sfx: "(case sfx of [] \<Rightarrow> True | e # tp \<Rightarrow> e = CHR ''-'' \<and> tp \<noteq> [])"
    unfolding list_ex_iff by (auto simp: splits_iff)
  from sfx have "sfx = [] \<or> (\<exists>tp. sfx = ''-'' @ tp \<and> tp \<noteq> [])" by (cases sfx) auto
  with ir r' v show "\<exists>ident v sfx. key = ident @ ''-'' @ v @ sfx \<and> CHR ''.'' \<in> set ident \<and> isVersion v
        \<and> (sfx = [] \<or> (\<exists>tp. sfx = ''-'' @ tp \<and> tp \<noteq> []))"
    by auto
next
  assume "\<exists>ident v sfx. key = ident @ ''-'' @ v @ sfx \<and> CHR ''.'' \<in> set ident \<and> isVersion v
        \<and> (sfx = [] \<or> (\<exists>tp. sfx = ''-'' @ tp \<and> tp \<noteq> []))"
  then obtain ident v sfx where key: "key = ident @ ''-'' @ v @ sfx" and dot: "CHR ''.'' \<in> set ident"
    and v: "isVersion v" and sfx: "sfx = [] \<or> (\<exists>tp. sfx = ''-'' @ tp \<and> tp \<noteq> [])"
    by blast
  from sfx have "case sfx of [] \<Rightarrow> True | e # tp \<Rightarrow> e = CHR ''-'' \<and> tp \<noteq> []"
    by (cases sfx) auto
  then have inner: "list_ex (\<lambda>(v, sfx). isVersion v \<and> (case sfx of [] \<Rightarrow> True | e # tp \<Rightarrow> e = CHR ''-'' \<and> tp \<noteq> []))
         (splits (v @ sfx))"
    by (intro list_ex_splitsI) (simp add: v)
  have "key = ident @ CHR ''-'' # v @ sfx" by (simp add: key)
  then show "matchesKeyPattern key"
    unfolding matchesKeyPattern_def by (simp only:) (rule list_ex_splitsI, simp add: dot inner)
qed

lemma parse_Some_rx:
  assumes "parse key = Some k"
  shows "\<exists>caps t. (caps, t) \<in> set (rx ExtensionKeyRegex key)"
proof -
  from assms have "rx ExtensionKeyRegex key \<noteq> []"
    by (auto simp: parse_def exec_def split: list.splits)
  then obtain m ms where "rx ExtensionKeyRegex key = m # ms" by (cases "rx ExtensionKeyRegex key") auto
  then have "(fst m, snd m) \<in> set (rx ExtensionKeyRegex key)" by simp
  then show ?thesis by blast
qed

lemma parse_Some_matchesKeyPattern:
  assumes "parse key = Some k"
  shows "matchesKeyPattern key"
proof -
  from parse_Some_rx [OF assms] obtain caps t where "(caps, t) \<in> set (rx ExtensionKeyRegex key)"
    by blast
  from ExtensionKeyRegex_sound [OF this] obtain p q a b d sfx where
    key: "key = (p @ ''.'' @ q) @ ''-'' @ (a @ ''.'' @ b @ ''.'' @ d) @ sfx"
    and ds: "a \<noteq> []" "\<forall>x\<in>set a. digit x" "b \<noteq> []" "\<forall>x\<in>set b. digit x" "d \<noteq> []" "\<forall>x\<in>set d. digit x"
    and sfx: "sfx = [] \<or> (\<exists>tp. sfx = ''-'' @ tp \<and> tp \<noteq> [])"
    by blast
  from ds have "isVersion (a @ ''.'' @ b @ ''.'' @ d)"
    unfolding isVersion_iff digitRun_iff by blast
  moreover have "CHR ''.'' \<in> set (p @ ''.'' @ q)" by simp
  ultimately show ?thesis
    unfolding matchesKeyPattern_iff using key sfx by blast
qed

text \<open>
  Claim C5: \<open>parse\<close> is a total function with no failure other than the result \<open>null\<close>
  (\<open>None\<close>); on every string that does not match the key pattern of the specification it returns
  \<open>null\<close>, and so it does on \<open>"not-a-version"\<close> and on \<open>"pub.name"\<close>.
\<close>

theorem parse_null_on_mismatch:
  "(\<not> matchesKeyPattern key \<longrightarrow> parse key = None)
   \<and> parse ''not-a-version'' = None \<and> parse ''pub.name'' = None"
proof (intro conjI impI)
  assume "\<not> matchesKeyPattern key"
  then show "parse key = None"
    using parse_Some_matchesKeyPattern [of key] by (cases "parse key") auto
next
  show "parse ''not-a-version'' = None"
    by (simp add: parse_def exec_def ExtensionKeyRegex_def notDot_def lit_def)
next
  show "parse ''pub.name'' = None"
    by (simp add: parse_def exec_def ExtensionKeyRegex_def notDot_def anyChar_def lit_def)
qed

theorem parse_null_on_mismatch_witness:
  "\<not> matchesKeyPattern ''pub.name-1.2'' \<and> parse ''pub.name-1.2'' = None"
proof -
  have h: "\<not> matchesKeyPattern ''pub.name-1.2''"
    by (simp add: matchesKeyPattern_def isVersion_def digitRun_def digit_def)
  with parse_null_on_mismatch [of "''pub.name-1.2''"] show ?thesis by blast
qed

lemma plus_ends_append:
  "(\<forall>c\<in>set xs. p c) \<Longrightarrow>
     plus_ends p (xs @ ys) = plus_ends p ys @ map (\<lambda>t. t @ ys) (plus_ends (\<lambda>_. True) xs)"
  by (induction xs) auto

lemma plus_ends_all:
  "xs \<noteq> [] \<Longrightarrow> \<exists>ts. plus_ends (\<lambda>_. True) xs = [] # ts \<and> (\<forall>t\<in>set ts. t \<noteq> [] \<and> hd t \<in> set xs)"
proof (induction xs)
  case Nil
  then show ?case by simp
next
  case (Cons x xs)
  show ?case
  proof (cases "xs = []")
    case True
    then show ?thesis by simp
  next
    case False
    with Cons.IH obtain ts where "plus_ends (\<lambda>_. True) xs = [] # ts"
      "\<forall>t\<in>set ts. t \<noteq> [] \<and> hd t \<in> set xs" by blast
    with False show ?thesis by (intro exI [of _ "ts @ [xs]"]) auto
  qed
qed

lemma plus_ends_stop: "ys = [] \<or> \<not> p (hd ys) \<Longrightarrow> plus_ends p ys = []"
  by (cases ys) auto

lemma plus_ends_greedy:
  assumes "xs \<noteq> []" "\<forall>c\<in>set xs. p c" "ys = [] \<or> \<not> p (hd ys)"
  shows "\<exists>ts. plus_ends p (xs @ ys) = ys # ts \<and> (\<forall>t\<in>set ts. t \<noteq> [] \<and> hd t \<in> set xs)"
proof -
  from plus_ends_all [OF assms(1)] obtain ts where
    ts: "plus_ends (\<lambda>_. True) xs = [] # ts" "\<forall>t\<in>set ts. t \<noteq> [] \<and> hd t \<in> set xs" by blast
  have "plus_ends p (xs @ ys) = ys # map (\<lambda>t. t @ ys) ts"
    using plus_ends_stop [of ys p] assms(3) by (simp add: plus_ends_append [OF assms(2)] ts(1))
  moreover have "\<forall>t\<in>set (map (\<lambda>t. t @ ys) ts). t \<noteq> [] \<and> hd t \<in> set xs"
    using ts(2) by auto
  ultimately show ?thesis by blast
qed

lemma rx_Plus_hd:
  assumes "xs \<noteq> []" "\<forall>c\<in>set xs. p c" "ys = [] \<or> \<not> p (hd ys)"
  shows "\<exists>L. rx (Plus p) (xs @ ys) = ([], ys) # L"
  using plus_ends_greedy [OF assms] by auto

lemma rx_Seq_hd:
  assumes "rx a s = (ca, t) # L" "rx b t = (cb, u) # M"
  shows "\<exists>N. rx (Seq a b) s = (ca @ cb, u) # N"
  using assms by simp

lemma rx_Grp_hd:
  assumes "rx a (m @ t) = (ca, t) # L"
  shows "\<exists>N. rx (Grp n a) (m @ t) = ((n, m) # ca, t) # N"
  using assms by simp

lemma rx_Seq_lit_hd:
  assumes "rx b t = (cb, u) # M"
  shows "\<exists>N. rx (Seq (Cls (lit x)) b) (x # t) = (cb, u) # N"
  using assms by (simp add: lit_def)

lemma rx_Seq_Plus_hd:
  assumes "xs \<noteq> []" "\<forall>c\<in>set xs. p c" "ys = [] \<or> \<not> p (hd ys)" "rx b ys = (cb, u) # M"
  shows "\<exists>N. rx (Seq (Plus p) b) (xs @ ys) = (cb, u) # N"
proof -
  from rx_Plus_hd [OF assms(1-3)] obtain L where "rx (Plus p) (xs @ ys) = ([], ys) # L" by blast
  from rx_Seq_hd [OF this assms(4)] show ?thesis by simp
qed

lemma rx_version_hd:
  assumes "digitRun a" "digitRun b" "digitRun d" "sfx = [] \<or> \<not> digit (hd sfx)"
  shows "\<exists>N. rx (Grp 2 (Seq (Plus digit) (Seq (Cls (lit CHR ''.''))
                (Seq (Plus digit) (Seq (Cls (lit CHR ''.'')) (Plus digit))))))
              ((a @ ''.'' @ b @ ''.'' @ d) @ sfx) = ([(2, a @ ''.'' @ b @ ''.'' @ d)], sfx) # N"
proof -
  have nd: "\<not> digit CHR ''.''" by (simp add: digit_def)
  from assms have a: "a \<noteq> []" "\<forall>c\<in>set a. digit c" and b: "b \<noteq> []" "\<forall>c\<in>set b. digit c"
    and d: "d \<noteq> []" "\<forall>c\<in>set d. digit c" by (auto simp: digitRun_iff)
  from rx_Plus_hd [OF d assms(4)] obtain L1 where
    1: "rx (Plus digit) (d @ sfx) = ([], sfx) # L1" by blast
  from rx_Seq_lit_hd [OF 1] obtain L2 where
    2: "rx (Seq (Cls (lit CHR ''.'')) (Plus digit)) (CHR ''.'' # d @ sfx) = ([], sfx) # L2" by blast
  have pr1: "CHR ''.'' # d @ sfx = [] \<or> \<not> digit (hd (CHR ''.'' # d @ sfx))"
    using nd by simp
  from rx_Seq_Plus_hd [OF b pr1 2] obtain L3 where
    3: "rx (Seq (Plus digit) (Seq (Cls (lit CHR ''.'')) (Plus digit))) (b @ (CHR ''.'' # d @ sfx))
          = ([], sfx) # L3" by blast
  from rx_Seq_lit_hd [OF 3] obtain L4 where
    4: "rx (Seq (Cls (lit CHR ''.'')) (Seq (Plus digit) (Seq (Cls (lit CHR ''.'')) (Plus digit))))
          (CHR ''.'' # b @ (CHR ''.'' # d @ sfx)) = ([], sfx) # L4" by blast
  have pr2: "CHR ''.'' # b @ (CHR ''.'' # d @ sfx) = []
      \<or> \<not> digit (hd (CHR ''.'' # b @ (CHR ''.'' # d @ sfx)))"
    using nd by simp
  from rx_Seq_Plus_hd [OF a pr2 4] obtain L5 where
    5: "rx (Seq (Plus digit) (Seq (Cls (lit CHR ''.'')) (Seq (Plus digit) (Seq (Cls (lit CHR ''.'')) (Plus digit)))))
          (a @ (CHR ''.'' # b @ (CHR ''.'' # d @ sfx))) = ([], sfx) # L5" by blast
  have eq: "a @ (CHR ''.'' # b @ (CHR ''.'' # d @ sfx)) = (a @ ''.'' @ b @ ''.'' @ d) @ sfx" by simp
  from rx_Grp_hd [OF 5 [unfolded eq]] show ?thesis by blast
qed

lemma rx_platform_hd:
  assumes "sfx = [] \<or> (\<exists>tp. sfx = ''-'' @ tp \<and> tp \<noteq> [] \<and> (\<forall>c\<in>set tp. anyChar c))"
  shows "\<exists>N. rx (Seq (Opt (Grp 3 (Seq (Cls (lit CHR ''-'')) (Grp 4 (Plus anyChar))))) Eol) sfx
           = (if sfx = [] then [] else [(3, sfx), (4, tl sfx)], []) # N"
proof (cases "sfx = []")
  case True
  then show ?thesis by simp
next
  case False
  with assms obtain tp where sfx: "sfx = ''-'' @ tp" and tp: "tp \<noteq> []" "\<forall>c\<in>set tp. anyChar c"
    by blast
  from rx_Plus_hd [OF tp, of "[]"] obtain L1 where 1: "rx (Plus anyChar) (tp @ []) = ([], []) # L1"
    by auto
  from rx_Grp_hd [OF 1, of 4] obtain L2 where 2: "rx (Grp 4 (Plus anyChar)) tp = ([(4, tp)], []) # L2"
    by (auto simp del: rx.simps)
  from rx_Seq_lit_hd [OF 2] obtain L3 where
    3: "rx (Seq (Cls (lit CHR ''-'')) (Grp 4 (Plus anyChar))) (CHR ''-'' # tp) = ([(4, tp)], []) # L3"
    by blast
  from rx_Grp_hd [of _ "CHR ''-'' # tp" "[]", simplified append_Nil2, OF 3, of 3] obtain L4 where
    "rx (Opt (Grp 3 (Seq (Cls (lit CHR ''-'')) (Grp 4 (Plus anyChar))))) (CHR ''-'' # tp)
       = ([(3, CHR ''-'' # tp), (4, tp)], []) # L4" by (auto simp del: rx.simps simp: rx.simps(4))
  from rx_Seq_hd [OF this, of Eol "[]" "[]" "[]"] show ?thesis by (simp add: sfx)
qed

lemma rx_Seq_lit_fail: "s = [] \<or> hd s \<noteq> x \<Longrightarrow> rx (Seq (Cls (lit x)) b) s = []"
  by (cases s) (auto simp: lit_def)

lemma rx_id_core:
  assumes "p \<noteq> []" "\<forall>c\<in>set p. notDot c"
  shows "rx (Seq (Plus notDot) (Seq (Cls (lit CHR ''.'')) (Plus anyChar))) (p @ ''.'' @ r)
           = map (\<lambda>t. ([], t)) (plus_ends anyChar r)"
proof -
  have "CHR ''.'' # r = [] \<or> \<not> notDot (hd (CHR ''.'' # r))" by (simp add: notDot_def)
  from plus_ends_greedy [OF assms this] obtain ts where
    ts: "plus_ends notDot (p @ CHR ''.'' # r) = (CHR ''.'' # r) # ts"
        "\<forall>t\<in>set ts. t \<noteq> [] \<and> hd t \<in> set p" by blast
  have fail: "rx (Seq (Cls (lit CHR ''.'')) (Plus anyChar)) t = []" if "t \<in> set ts" for t
  proof (rule rx_Seq_lit_fail)
    from that ts(2) assms(2) have "notDot (hd t)" by blast
    then show "t = [] \<or> hd t \<noteq> CHR ''.''" by (simp add: notDot_def)
  qed
  have "concat (map (\<lambda>t. map (\<lambda>(cb, u). (cb, u)) (rx (Seq (Cls (lit CHR ''.'')) (Plus anyChar)) t)) ts) = []"
    using fail by simp
  then show ?thesis
    by (simp add: ts(1) lit_def comp_def del: rx.simps(3) add: rx.simps(3) [of "Plus notDot"] rx.simps(3) [of "Cls _"])
qed

lemma rx_id_list:
  assumes "p \<noteq> []" "\<forall>c\<in>set p. notDot c"
  shows "rx (Grp 1 (Seq (Plus notDot) (Seq (Cls (lit CHR ''.'')) (Plus anyChar)))) (p @ ''.'' @ r)
           = map (\<lambda>t. ([(1, take (length (p @ ''.'' @ r) - length t) (p @ ''.'' @ r))], t))
               (plus_ends anyChar r)"
  unfolding rx.simps(5) rx_id_core [OF assms] by (simp add: comp_def)

text \<open>No later dash of the key string starts a version.\<close>

lemma rx_tail_fail:
  assumes ver: "\<forall>c\<in>set v. c \<noteq> CHR ''-''"
    and sfx: "CHR ''.'' \<notin> set sfx"
    and t: "v @ sfx = xs @ t"
  shows "rx (Seq (Cls (lit CHR ''-'')) (Seq (Grp 2 (Seq (Plus digit) (Seq (Cls (lit CHR ''.'')) X))) Y)) t = []"
proof (cases "t = [] \<or> hd t \<noteq> CHR ''-''")
  case True
  then show ?thesis by (rule rx_Seq_lit_fail)
next
  case False
  then obtain t' where t': "t = CHR ''-'' # t'" by (cases t) auto
  from t consider us where "v = xs @ us" "us @ sfx = t" | us where "v @ us = xs" "sfx = us @ t"
    by (auto simp: append_eq_append_conv2)
  then have "set t \<subseteq> set sfx"
  proof cases
    case 1
    show ?thesis
    proof (cases us)
      case Nil
      with 1 show ?thesis by auto
    next
      case (Cons u us')
      with 1 t' have "CHR ''-'' \<in> set v" by auto
      with ver show ?thesis by blast
    qed
  next
    case 2
    then show ?thesis by auto
  qed
  with sfx t' have nodot: "CHR ''.'' \<notin> set t'" by auto
  have "rx (Grp 2 (Seq (Plus digit) (Seq (Cls (lit CHR ''.'')) X))) t' = []"
  proof (rule ccontr)
    assume "rx (Grp 2 (Seq (Plus digit) (Seq (Cls (lit CHR ''.'')) X))) t' \<noteq> []"
    then obtain c u where "(c, u) \<in> set (rx (Grp 2 (Seq (Plus digit) (Seq (Cls (lit CHR ''.'')) X))) t')"
      by (metis hd_in_set prod.collapse)
    then obtain ds w where "t' = ds @ CHR ''.'' # w"
      unfolding rx_Grp_iff rx_Seq_iff rx_Plus_iff rx_Cls_iff by (auto simp: lit_def)
    with nodot show False by simp
  qed
  then show ?thesis by (simp add: t' lit_def del: rx.simps(5))
qed

lemma concat_map_skip:
  assumes "\<forall>x\<in>set A. F x = []" "F y = z # zs"
  shows "\<exists>N. concat (map F (A @ y # B)) = z # N"
proof -
  from assms(1) have c: "concat (map F A) = []" by simp
  show ?thesis unfolding map_append concat_append list.map concat.simps c assms(2) by simp
qed

lemma exec_key_string:
  assumes p: "p \<noteq> []" "\<forall>c\<in>set p. notDot c"
    and q: "q \<noteq> []" "\<forall>c\<in>set q. anyChar c"
    and ds: "digitRun a" "digitRun b" "digitRun d"
    and sfx: "sfx = [] \<or> (\<exists>tp. sfx = ''-'' @ tp \<and> tp \<noteq> [] \<and> (\<forall>c\<in>set tp. anyChar c \<and> notDot c))"
  shows "exec ExtensionKeyRegex ((p @ ''.'' @ q) @ ''-'' @ (a @ ''.'' @ b @ ''.'' @ d) @ sfx)
           = Some ([(1, p @ ''.'' @ q), (2, a @ ''.'' @ b @ ''.'' @ d)]
                    @ (if sfx = [] then [] else [(3, sfx), (4, tl sfx)]))"
proof -
  define ver where "ver = a @ ''.'' @ b @ ''.'' @ d"
  define T where "T = ''-'' @ ver @ sfx"
  define s where "s = p @ ''.'' @ (q @ T)"
  define G1 where "G1 = Grp 1 (Seq (Plus notDot) (Seq (Cls (lit CHR ''.'')) (Plus anyChar)))"
  define G2 where "G2 = Grp 2 (Seq (Plus digit) (Seq (Cls (lit CHR ''.''))
                (Seq (Plus digit) (Seq (Cls (lit CHR ''.'')) (Plus digit)))))"
  define G3 where "G3 = Seq (Opt (Grp 3 (Seq (Cls (lit CHR ''-'')) (Grp 4 (Plus anyChar))))) Eol"
  define K where "K = Seq (Cls (lit CHR ''-'')) (Seq G2 G3)"
  define F where "F = (\<lambda>(ca :: captures, t). map (\<lambda>(cb, u). (ca @ cb, u)) (rx K t))"
  define g where "g = (\<lambda>t :: string. ([(1 :: nat, take (length s - length t) s)], t))"
  define ck where "ck = [(2 :: nat, ver)] @ (if sfx = [] then [] else [(3, sfx), (4, tl sfx)])"
  have re: "ExtensionKeyRegex = Seq G1 K"
    by (simp add: ExtensionKeyRegex_def G1_def K_def G2_def G3_def)
  have nd: "\<not> digit CHR ''-''" "\<not> digit CHR ''.''" by (simp_all add: digit_def)
  have digit_anyChar: "anyChar c" if "digit c" for c
  proof (rule ccontr)
    assume "\<not> anyChar c"
    then have "c = CHR 0x0A \<or> c = CHR 0x0D" by (simp add: anyChar_def)
    then have "\<not> digit c" by (elim disjE) (simp_all add: digit_def)
    with that show False by simp
  qed
  have sfx_props: "(\<forall>c\<in>set sfx. anyChar c) \<and> CHR ''.'' \<notin> set sfx \<and> (sfx = [] \<or> \<not> digit (hd sfx))"
  proof (cases "sfx = []")
    case True
    then show ?thesis by simp
  next
    case False
    with sfx obtain tp where tp: "sfx = CHR ''-'' # tp" "\<forall>c\<in>set tp. anyChar c"
      "\<forall>c\<in>set tp. notDot c" by fastforce
    from tp(3) have "CHR ''.'' \<notin> set tp" unfolding notDot_def by blast
    with tp(1,2) nd(1) show ?thesis by (simp add: anyChar_def)
  qed
  then have sfx_anyChar: "\<forall>c\<in>set sfx. anyChar c" and sfx_nodot: "CHR ''.'' \<notin> set sfx"
    and sfx_hd: "sfx = [] \<or> \<not> digit (hd sfx)" by blast+
  have ver_chars: "\<forall>c\<in>set ver. digit c \<or> c = CHR ''.''"
    using ds by (auto simp: ver_def digitRun_iff)
  have ver_nodash: "\<forall>c\<in>set ver. c \<noteq> CHR ''-''"
  proof
    fix c assume "c \<in> set ver"
    with ver_chars have "digit c \<or> c = CHR ''.''" by blast
    then show "c \<noteq> CHR ''-''" using nd(1) by (elim disjE) (blast, simp)
  qed
  have ver_anyChar: "\<forall>c\<in>set ver. anyChar c"
  proof
    fix c assume "c \<in> set ver"
    with ver_chars have "digit c \<or> c = CHR ''.''" by blast
    then show "anyChar c" using digit_anyChar by (elim disjE) (blast, simp add: anyChar_def)
  qed
  have T_anyChar: "\<forall>c\<in>set T. anyChar c"
    using ver_anyChar sfx_anyChar by (simp add: T_def anyChar_def ball_Un)
  (* the candidates for the end of group 1, longest first *)
  have g1: "rx G1 s = map g (plus_ends anyChar (q @ T))"
    unfolding G1_def s_def g_def by (rule rx_id_list [OF p])
  from plus_ends_all [OF q(1)] obtain ts where
    ts: "plus_ends (\<lambda>_. True) q = [] # ts" by blast
  have cands: "plus_ends anyChar (q @ T) = plus_ends anyChar T @ T # map (\<lambda>t. t @ T) ts"
    by (simp add: plus_ends_append [OF q(2)] ts)
  (* every candidate beyond the id fails *)
  have fail: "F (g t) = []" if "t \<in> set (plus_ends anyChar T)" for t
  proof -
    from that obtain xs where xs: "xs \<noteq> []" "T = xs @ t" by (auto simp: plus_ends_iff)
    then obtain xs' where "ver @ sfx = xs' @ t" by (cases xs) (auto simp: T_def)
    from rx_tail_fail [OF ver_nodash sfx_nodot this] have "rx K t = []"
      unfolding K_def G2_def .
    then show ?thesis by (simp add: F_def g_def)
  qed
  (* the candidate that ends at the id succeeds *)
  from rx_version_hd [OF ds sfx_hd] obtain N2 where
    v: "rx G2 (ver @ sfx) = ([(2, ver)], sfx) # N2" unfolding G2_def ver_def by blast
  have "sfx = [] \<or> (\<exists>tp. sfx = ''-'' @ tp \<and> tp \<noteq> [] \<and> (\<forall>c\<in>set tp. anyChar c))"
    using sfx by blast
  from rx_platform_hd [OF this] obtain N3 where
    pl: "rx G3 sfx = (if sfx = [] then [] else [(3, sfx), (4, tl sfx)], []) # N3"
    unfolding G3_def by blast
  from rx_Seq_hd [OF v pl] obtain N4 where "rx (Seq G2 G3) (ver @ sfx) = (ck, []) # N4"
    unfolding ck_def by blast
  from rx_Seq_lit_hd [OF this, of "CHR ''-''"] obtain N5 where k: "rx K T = (ck, []) # N5"
    unfolding K_def T_def by auto
  have "take (length s - length T) s = p @ ''.'' @ q" by (simp add: s_def)
  then have "F (g T) = ([(1, p @ ''.'' @ q)] @ ck, []) # map (\<lambda>(cb, u). ([(1, p @ ''.'' @ q)] @ cb, u)) N5"
    by (simp add: F_def g_def k)
  moreover have "\<forall>t\<in>set (plus_ends anyChar T). F (g t) = []" using fail by blast
  ultimately have "\<exists>N. concat (map (\<lambda>t. F (g t)) (plus_ends anyChar T @ T # map (\<lambda>t. t @ T) ts))
                    = ([(1, p @ ''.'' @ q)] @ ck, []) # N"
    by (intro concat_map_skip)
  then obtain N where
    "concat (map (\<lambda>t. F (g t)) (plus_ends anyChar (q @ T))) = ([(1, p @ ''.'' @ q)] @ ck, []) # N"
    unfolding cands by (elim exE)
  then have "rx ExtensionKeyRegex s = ([(1, p @ ''.'' @ q)] @ ck, []) # N"
    unfolding re rx.simps(3) g1 F_def [symmetric] by (simp add: comp_def)
  then have "exec ExtensionKeyRegex s = Some ([(1, p @ ''.'' @ q)] @ ck)"
    by (simp add: exec_def)
  moreover have "s = (p @ ''.'' @ q) @ ''-'' @ (a @ ''.'' @ b @ ''.'' @ d) @ sfx"
    by (simp add: s_def T_def ver_def)
  ultimately show ?thesis by (simp add: ck_def ver_def)
qed

lemma parse_key_string:
  assumes p: "p \<noteq> []" "\<forall>c\<in>set p. notDot c"
    and q: "q \<noteq> []" "\<forall>c\<in>set q. anyChar c"
    and ds: "digitRun a" "digitRun b" "digitRun d"
    and sfx: "sfx = [] \<or> (\<exists>tp. sfx = ''-'' @ tp \<and> tp \<noteq> [] \<and> (\<forall>c\<in>set tp. anyChar c \<and> notDot c))"
  shows "parse ((p @ ''.'' @ q) @ ''-'' @ (a @ ''.'' @ b @ ''.'' @ d) @ sfx)
           = Some \<lparr>key_id = p @ ''.'' @ q, version = a @ ''.'' @ b @ ''.'' @ d,
                   targetPlatform = (if sfx = [] then UNDEFINED else tl sfx)\<rparr>"
proof -
  from ds(1) have a: "a \<noteq> []" by (simp add: digitRun_iff)
  from sfx have tl: "sfx \<noteq> [] \<Longrightarrow> tl sfx \<noteq> []" by fastforce
  show ?thesis
    unfolding parse_def exec_key_string [OF assms]
    using a p(1) tl by (simp add: new_ExtensionKey_def truthy_def)
qed

text \<open>
  Claim C2, amended: a key round-trips through \<open>toString\<close> and \<open>parse\<close> when its id is a
  non-empty run of characters other than the dot, a dot, and a non-empty rest without line
  terminators; its version is three dot-separated non-empty runs of digits; and its target
  platform is a non-empty tag without dots and line terminators (as are \<open>win32-x64\<close>,
  \<open>darwin-arm64\<close>, \<open>unknown\<close> and the sentinel \<open>undefined\<close>). Then \<open>parse (toString k)\<close> is
  the key \<open>k\<close> itself, which is equal to \<open>k\<close> under \<open>equals\<close>.
\<close>

theorem parse_toString_roundtrip:
  assumes "p \<noteq> []" "\<forall>c\<in>set p. notDot c"
    and "q \<noteq> []" "\<forall>c\<in>set q. anyChar c"
    and "digitRun a" "digitRun b" "digitRun d"
    and "tp \<noteq> []" "\<forall>c\<in>set tp. anyChar c \<and> notDot c"
    and "k = \<lparr>key_id = p @ ''.'' @ q, version = a @ ''.'' @ b @ ''.'' @ d, targetPlatform = tp\<rparr>"
  shows "parse (toString k) = Some k \<and> equals k (parse (toString k))"
proof -
  define sfx where "sfx = (if tp \<noteq> UNDEFINED then ''-'' @ tp else '''')"
  have sfx: "sfx = [] \<or> (\<exists>tp. sfx = ''-'' @ tp \<and> tp \<noteq> [] \<and> (\<forall>c\<in>set tp. anyChar c \<and> notDot c))"
    using assms(8,9) unfolding sfx_def by (cases "tp = UNDEFINED") simp_all
  have str: "toString k = (p @ ''.'' @ q) @ ''-'' @ (a @ ''.'' @ b @ ''.'' @ d) @ sfx"
    by (simp add: toString_def assms(10) sfx_def)
  have tp: "(if sfx = [] then UNDEFINED else tl sfx) = tp"
    by (simp add: sfx_def)
  have "parse (toString k) = Some k"
    unfolding str parse_key_string [OF assms(1-7) sfx] tp by (simp add: assms(10))
  then show ?thesis
    by (simp add: equals_def areSameExtensions_def)
qed

theorem parse_toString_roundtrip_witness:
  "parse (toString \<lparr>key_id = ''pub.name'', version = ''1.20.3'', targetPlatform = ''win32-x64''\<rparr>)
     = Some \<lparr>key_id = ''pub.name'', version = ''1.20.3'', targetPlatform = ''win32-x64''\<rparr>
   \<and> equals \<lparr>key_id = ''pub.name'', version = ''1.20.3'', targetPlatform = ''win32-x64''\<rparr>
        (parse (toString \<lparr>key_id = ''pub.name'', version = ''1.20.3'', targetPlatform = ''win32-x64''\<rparr>))"
proof -
  have "''pub'' \<noteq> []" "\<forall>c\<in>set ''pub''. notDot c" "''name'' \<noteq> []" "\<forall>c\<in>set ''name''. anyChar c"
    "digitRun ''1''" "digitRun ''20''" "digitRun ''3''"
    "''win32-x64'' \<noteq> []" "\<forall>c\<in>set ''win32-x64''. anyChar c \<and> notDot c"
    "\<lparr>key_id = ''pub.name'', version = ''1.20.3'', targetPlatform = ''win32-x64''\<rparr>
       = \<lparr>key_id = ''pub'' @ ''.'' @ ''name'', version = ''1'' @ ''.'' @ ''20'' @ ''.'' @ ''3'',
          targetPlatform = ''win32-x64''\<rparr>"
    by (simp_all add: notDot_def anyChar_def digitRun_def digit_def)
  then show ?thesis by (rule parse_toString_roundtrip)
qed

text \<open>
  Claim C2, as stated, asks of the id only that it contains a dot. The regular expression asks
  for at least one character before the first dot: the key with id \<open>.name\<close>, version
  \<open>1.2.3\<close> and no target platform is rendered as \<open>.name-1.2.3\<close>, which \<open>parse\<close> rejects.
\<close>

theorem parse_toString_leading_dot_counterexample:
  "CHR ''.'' \<in> set (key_id \<lparr>key_id = ''.name'', version = ''1.2.3'', targetPlatform = UNDEFINED\<rparr>)
   \<and> isVersion (version \<lparr>key_id = ''.name'', version = ''1.2.3'', targetPlatform = UNDEFINED\<rparr>)
   \<and> parse (toString \<lparr>key_id = ''.name'', version = ''1.2.3'', targetPlatform = UNDEFINED\<rparr>) = None
   \<and> \<not> equals \<lparr>key_id = ''.name'', version = ''1.2.3'', targetPlatform = UNDEFINED\<rparr>
         (parse (toString \<lparr>key_id = ''.name'', version = ''1.2.3'', targetPlatform = UNDEFINED\<rparr>))"
proof -
  have 1: "toString \<lparr>key_id = ''.name'', version = ''1.2.3'', targetPlatform = UNDEFINED\<rparr> = ''.name-1.2.3''"
    by (simp add: toString_def)
  have 2: "parse ''.name-1.2.3'' = None"
    by (simp add: parse_def exec_def ExtensionKeyRegex_def notDot_def)
  have 3: "isVersion ''1.2.3''"
    by (simp add: isVersion_def digitRun_def digit_def)
  show ?thesis unfolding 1 2 using 3 by (simp add: equals_def)
qed

section \<open>Properties of create\<close>

text \<open>
  Claim C4, as stated: \<open>create\<close> fails with a descriptive error on input of neither shape and
  never returns a degenerate key. The source has no check of the shape: an object with an
  identifier and an empty \<open>properties\<close>, without \<open>manifest\<close>, \<open>version\<close> and target platform,
  is of neither shape, and \<open>create\<close> returns for it a key whose version is \<open>undefined\<close>.
\<close>

theorem create_degenerate_counterexample:
  "\<not> installedShape \<lparr>obj_identifier = Some \<lparr>id' = ''pub.name'', uuid = None\<rparr>, obj_manifest = None,
        obj_targetPlatform = None, obj_version = None,
        obj_properties = Some \<lparr>properties_targetPlatform = None\<rparr>\<rparr>
   \<and> \<not> remoteShape \<lparr>obj_identifier = Some \<lparr>id' = ''pub.name'', uuid = None\<rparr>, obj_manifest = None,
        obj_targetPlatform = None, obj_version = None,
        obj_properties = Some \<lparr>properties_targetPlatform = None\<rparr>\<rparr>
   \<and> create \<lparr>obj_identifier = Some \<lparr>id' = ''pub.name'', uuid = None\<rparr>, obj_manifest = None,
        obj_targetPlatform = None, obj_version = None,
        obj_properties = Some \<lparr>properties_targetPlatform = None\<rparr>\<rparr>
       = Inr \<lparr>created_id = ''pub.name'', created_version = None, created_targetPlatform = UNDEFINED\<rparr>"
  by (simp add: installedShape_def remoteShape_def create_def)

text \<open>
  Claim C4, amended: for input of the installed shape and for input of the remote-catalog shape,
  \<open>create\<close> returns the key of the identifier's id, the version and the target platform of the
  input. It validates nothing itself. On every input with an identifier, when \<open>manifest\<close> is
  present the key has the id of the identifier, the version \<open>manifest.version\<close> and the
  top-level target platform; when \<open>manifest\<close> is absent and \<open>properties\<close> is present it has the
  top-level \<open>version\<close> and the target platform \<open>properties.targetPlatform\<close>. In both cases
  the version of the key is \<open>undefined\<close> when the version read is absent, and its target
  platform is \<open>UNDEFINED\<close> when the target platform read is absent. \<open>create\<close> fails exactly
  when a property of \<open>undefined\<close> is read: with the \<open>TypeError\<close> of reading \<open>targetPlatform\<close>
  when \<open>manifest\<close> and \<open>properties\<close> are both absent, and otherwise with the \<open>TypeError\<close> of
  reading \<open>id\<close> when the identifier is absent.
\<close>

theorem create_cases:
  "(installedShape extension \<longrightarrow>
      (\<exists>ident m v tp. obj_identifier extension = Some ident \<and> obj_manifest extension = Some m
         \<and> manifest_version m = Some v \<and> obj_targetPlatform extension = Some tp
         \<and> create extension
             = Inr \<lparr>created_id = id' ident, created_version = Some v, created_targetPlatform = tp\<rparr>))
   \<and> (remoteShape extension \<longrightarrow>
      (\<exists>ident props v tp. obj_identifier extension = Some ident \<and> obj_version extension = Some v
         \<and> obj_properties extension = Some props \<and> properties_targetPlatform props = Some tp
         \<and> create extension
             = Inr \<lparr>created_id = id' ident, created_version = Some v, created_targetPlatform = tp\<rparr>))
   \<and> (obj_identifier extension = Some ident \<longrightarrow> obj_manifest extension = Some m \<longrightarrow>
        create extension
          = Inr \<lparr>created_id = id' ident, created_version = manifest_version m,
                 created_targetPlatform =
                   (case obj_targetPlatform extension of None \<Rightarrow> UNDEFINED | Some p \<Rightarrow> p)\<rparr>)
   \<and> (obj_identifier extension = Some ident \<longrightarrow> obj_manifest extension = None \<longrightarrow>
        obj_properties extension = Some props \<longrightarrow>
        create extension
          = Inr \<lparr>created_id = id' ident, created_version = obj_version extension,
                 created_targetPlatform =
                   (case properties_targetPlatform props of None \<Rightarrow> UNDEFINED | Some p \<Rightarrow> p)\<rparr>)
   \<and> (obj_manifest extension = None \<longrightarrow> obj_properties extension = None \<longrightarrow>
        create extension = Inl (TypeError ''targetPlatform''))
   \<and> (obj_identifier extension = None \<longrightarrow>
        \<not> (obj_manifest extension = None \<and> obj_properties extension = None) \<longrightarrow>
        create extension = Inl (TypeError ''id''))
   \<and> ((\<exists>e. create extension = Inl e) \<longleftrightarrow>
          (obj_manifest extension = None \<and> obj_properties extension = None)
          \<or> obj_identifier extension = None)"
proof (intro conjI impI)
  assume "installedShape extension"
  then show "\<exists>ident m v tp. obj_identifier extension = Some ident \<and> obj_manifest extension = Some m
         \<and> manifest_version m = Some v \<and> obj_targetPlatform extension = Some tp
         \<and> create extension
             = Inr \<lparr>created_id = id' ident, created_version = Some v, created_targetPlatform = tp\<rparr>"
    by (auto simp: installedShape_def create_def split: option.splits)
next
  assume "remoteShape extension"
  then show "\<exists>ident props v tp. obj_identifier extension = Some ident \<and> obj_version extension = Some v
         \<and> obj_properties extension = Some props \<and> properties_targetPlatform props = Some tp
         \<and> create extension
             = Inr \<lparr>created_id = id' ident, created_version = Some v, created_targetPlatform = tp\<rparr>"
    by (auto simp: remoteShape_def create_def split: option.splits)
next
  assume "obj_identifier extension = Some ident" "obj_manifest extension = Some m"
  then show "create extension
          = Inr \<lparr>created_id = id' ident, created_version = manifest_version m,
                 created_targetPlatform =
                   (case obj_targetPlatform extension of None \<Rightarrow> UNDEFINED | Some p \<Rightarrow> p)\<rparr>"
    by (simp add: create_def)
next
  assume "obj_identifier extension = Some ident" "obj_manifest extension = None"
    "obj_properties extension = Some props"
  then show "create extension
          = Inr \<lparr>created_id = id' ident, created_version = obj_version extension,
                 created_targetPlatform =
                   (case properties_targetPlatform props of None \<Rightarrow> UNDEFINED | Some p \<Rightarrow> p)\<rparr>"
    by (simp add: create_def)
next
  assume "obj_manifest extension = None" "obj_properties extension = None"
  then show "create extension = Inl (TypeError ''targetPlatform'')"
    by (simp add: create_def)
next
  assume "obj_identifier extension = None"
    "\<not> (obj_manifest extension = None \<and> obj_properties extension = None)"
  then show "create extension = Inl (TypeError ''id'')"
    by (auto simp: create_def split: option.splits)
next
  show "(\<exists>e. create extension = Inl e) \<longleftrightarrow>
          (obj_manifest extension = None \<and> obj_properties extension = None)
          \<or> obj_identifier extension = None"
    by (auto simp: create_def split: option.splits)
qed

theorem create_cases_witness:
  "installedShape \<lparr>obj_identifier = Some \<lparr>id' = ''pub.name'', uuid = None\<rparr>,
        obj_manifest = Some \<lparr>manifest_version = Some ''1.2.3''\<rparr>,
        obj_targetPlatform = Some ''linux-x64'', obj_version = None, obj_properties = None\<rparr>
   \<and> create \<lparr>obj_identifier = Some \<lparr>id' = ''pub.name'', uuid = None\<rparr>,
        obj_manifest = Some \<lparr>manifest_version = Some ''1.2.3''\<rparr>,
        obj_targetPlatform = Some ''linux-x64'', obj_version = None, obj_properties = None\<rparr>
       = Inr \<lparr>created_id = ''pub.name'', created_version = Some ''1.2.3'',
              created_targetPlatform = ''linux-x64''\<rparr>
   \<and> remoteShape \<lparr>obj_identifier = Some \<lparr>id' = ''pub.name'', uuid = Some ''u1''\<rparr>,
        obj_manifest = None, obj_targetPlatform = None, obj_version = Some ''2.0.0'',
        obj_properties = Some \<lparr>properties_targetPlatform = Some ''web''\<rparr>\<rparr>
   \<and> create \<lparr>obj_identifier = Some \<lparr>id' = ''pub.name'', uuid = Some ''u1''\<rparr>,
        obj_manifest = None, obj_targetPlatform = None, obj_version = Some ''2.0.0'',
        obj_properties = Some \<lparr>properties_targetPlatform = Some ''web''\<rparr>\<rparr>
       = Inr \<lparr>created_id = ''pub.name'', created_version = Some ''2.0.0'',
              created_targetPlatform = ''web''\<rparr>
   \<and> create \<lparr>obj_identifier = Some \<lparr>id' = ''pub.name'', uuid = None\<rparr>,
        obj_manifest = Some \<lparr>manifest_version = None\<rparr>,
        obj_targetPlatform = None, obj_version = Some ''9.9.9'', obj_properties = None\<rparr>
       = Inr \<lparr>created_id = ''pub.name'', created_version = None,
              created_targetPlatform = UNDEFINED\<rparr>
   \<and> create \<lparr>obj_identifier = Some \<lparr>id' = ''pub.name'', uuid = None\<rparr>,
        obj_manifest = None, obj_targetPlatform = Some ''web'', obj_version = None,
        obj_properties = Some \<lparr>properties_targetPlatform = None\<rparr>\<rparr>
       = Inr \<lparr>created_id = ''pub.name'', created_version = None,
              created_targetPlatform = UNDEFINED\<rparr>
   \<and> create \<lparr>obj_identifier = Some \<lparr>id' = ''pub.name'', uuid = None\<rparr>,
        obj_manifest = None, obj_targetPlatform = None, obj_version = Some ''2.0.0'',
        obj_properties = None\<rparr> = Inl (TypeError ''targetPlatform'')
   \<and> create \<lparr>obj_identifier = None,
        obj_manifest = Some \<lparr>manifest_version = Some ''1.2.3''\<rparr>,
        obj_targetPlatform = Some ''linux-x64'', obj_version = None, obj_properties = None\<rparr>
       = Inl (TypeError ''id'')"
proof -
  let ?a = "\<lparr>obj_identifier = Some \<lparr>id' = ''pub.name'', uuid = None\<rparr>,
        obj_manifest = Some \<lparr>manifest_version = Some ''1.2.3''\<rparr>,
        obj_targetPlatform = Some ''linux-x64'', obj_version = None, obj_properties = None\<rparr>"
  let ?b = "\<lparr>obj_identifier = Some \<lparr>id' = ''pub.name'', uuid = Some ''u1''\<rparr>,
        obj_manifest = None, obj_targetPlatform = None, obj_version = Some ''2.0.0'',
        obj_properties = Some \<lparr>properties_targetPlatform = Some ''web''\<rparr>\<rparr>"
  let ?c = "\<lparr>obj_identifier = Some \<lparr>id' = ''pub.name'', uuid = None\<rparr>,
        obj_manifest = Some \<lparr>manifest_version = None\<rparr>,
        obj_targetPlatform = None, obj_version = Some ''9.9.9'', obj_properties = None\<rparr>"
  let ?d = "\<lparr>obj_identifier = Some \<lparr>id' = ''pub.name'', uuid = None\<rparr>,
        obj_manifest = None, obj_targetPlatform = Some ''web'', obj_version = None,
        obj_properties = Some \<lparr>properties_targetPlatform = None\<rparr>\<rparr>"
  let ?e = "\<lparr>obj_identifier = Some \<lparr>id' = ''pub.name'', uuid = None\<rparr>,
        obj_manifest = None, obj_targetPlatform = None, obj_version = Some ''2.0.0'',
        obj_properties = None\<rparr>"
  let ?f = "\<lparr>obj_identifier = None,
        obj_manifest = Some \<lparr>manifest_version = Some ''1.2.3''\<rparr>,
        obj_targetPlatform = Some ''linux-x64'', obj_version = None, obj_properties = None\<rparr>"
  have 1: "installedShape ?a" by (simp add: installedShape_def)
  have 2: "remoteShape ?b" by (simp add: remoteShape_def)
  from 1 create_cases [of ?a]
  have a: "create ?a = Inr \<lparr>created_id = ''pub.name'', created_version = Some ''1.2.3'',
              created_targetPlatform = ''linux-x64''\<rparr>"
    by simp
  from 2 create_cases [of ?b]
  have b: "create ?b = Inr \<lparr>created_id = ''pub.name'', created_version = Some ''2.0.0'',
              created_targetPlatform = ''web''\<rparr>"
    by simp
  from create_cases [of ?c "\<lparr>id' = ''pub.name'', uuid = None\<rparr>" "\<lparr>manifest_version = None\<rparr>"]
  have c: "create ?c = Inr \<lparr>created_id = ''pub.name'', created_version = None,
              created_targetPlatform = UNDEFINED\<rparr>"
    by simp
  from create_cases [of ?d "\<lparr>id' = ''pub.name'', uuid = None\<rparr>" _ "\<lparr>properties_targetPlatform = None\<rparr>"]
  have d: "create ?d = Inr \<lparr>created_id = ''pub.name'', created_version = None,
              created_targetPlatform = UNDEFINED\<rparr>"
    by simp
  from create_cases [of ?e]
  have e: "create ?e = Inl (TypeError ''targetPlatform'')"
    by simp
  from create_cases [of ?f]
  have f: "create ?f = Inl (TypeError ''id'')"
    by simp
  from 1 2 a b c d e f show ?thesis by (intro conjI)
qed

section \<open>Properties of the grouping\<close>

lemma groupByExtension_step_Nil: "groupByExtension_step g [] x = [[x]]"
  by (simp add: groupByExtension_step_def)

lemma groupByExtension_step_Cons:
  "groupByExtension_step g (G # gs) x =
     (if \<exists>e\<in>set G. areSameExtensions (g e) (g x) then (G @ [x]) # gs
      else G # groupByExtension_step g gs x)"
  by (cases "findGroup g gs x") (simp_all add: groupByExtension_step_def list_ex_iff)

lemma mset_groupByExtension_step:
  "mset (concat (groupByExtension_step g gs x)) = mset (concat gs) + {#x#}"
  by (induction gs) (simp_all add: groupByExtension_step_Nil groupByExtension_step_Cons)

lemma mset_foldl_groupByExtension_step:
  "mset (concat (foldl (groupByExtension_step g) gs xs)) = mset (concat gs) + mset xs"
  by (induction xs arbitrary: gs) (simp_all add: mset_groupByExtension_step)

lemma set_groupByExtension_step:
  "set (concat (groupByExtension_step g gs x)) = insert x (set (concat gs))"
proof -
  have "set_mset (mset (concat (groupByExtension_step g gs x))) = set_mset (mset (concat gs) + {#x#})"
    by (simp only: mset_groupByExtension_step)
  then show ?thesis by simp
qed

lemma separated_groupByExtension_step:
  assumes trans: "\<forall>x\<in>S. \<forall>y\<in>S. \<forall>z\<in>S. areSameExtensions (g x) (g y) \<longrightarrow>
      areSameExtensions (g y) (g z) \<longrightarrow> areSameExtensions (g x) (g z)"
    and x: "x \<in> S"
  shows "set (concat gs) \<subseteq> S \<Longrightarrow> separated (\<lambda>x y. areSameExtensions (g x) (g y)) gs \<Longrightarrow>
     separated (\<lambda>x y. areSameExtensions (g x) (g y)) (groupByExtension_step g gs x)"
proof (induction gs)
  case Nil
  then show ?case by (simp add: groupByExtension_step_Nil areSameExtensions_refl)
next
  case (Cons G gs)
  from Cons.prems have G: "set G \<subseteq> S" and gs: "set (concat gs) \<subseteq> S"
    and nonempty: "G \<noteq> []"
    and inG: "\<forall>a\<in>set G. \<forall>b\<in>set G. areSameExtensions (g a) (g b)"
    and sepG: "\<forall>a\<in>set G. \<forall>b\<in>set (concat gs). \<not> areSameExtensions (g a) (g b)"
    and sep: "separated (\<lambda>x y. areSameExtensions (g x) (g y)) gs"
    by auto
  show ?case
  proof (cases "\<exists>e\<in>set G. areSameExtensions (g e) (g x)")
    case True
    then obtain e where e: "e \<in> set G" "areSameExtensions (g e) (g x)" by blast
    have ax: "areSameExtensions (g a) (g x)" if "a \<in> set G" for a
    proof -
      from inG that e(1) have "areSameExtensions (g a) (g e)" by blast
      with trans e(2) that e(1) G x show ?thesis by blast
    qed
    have xa: "areSameExtensions (g x) (g a)" if "a \<in> set G" for a
      using ax [OF that] areSameExtensions_sym by blast
    have xb: "\<not> areSameExtensions (g x) (g b)" if "b \<in> set (concat gs)" for b
    proof
      assume "areSameExtensions (g x) (g b)"
      with trans e G gs x that have "areSameExtensions (g e) (g b)" by blast
      with sepG e(1) that show False by blast
    qed
    have "\<forall>a\<in>set (G @ [x]). \<forall>b\<in>set (G @ [x]). areSameExtensions (g a) (g b)"
      using inG ax xa areSameExtensions_refl by auto
    moreover have "\<forall>a\<in>set (G @ [x]). \<forall>b\<in>set (concat gs). \<not> areSameExtensions (g a) (g b)"
      using sepG xb by auto
    ultimately show ?thesis
      using True sep by (simp add: groupByExtension_step_Cons)
  next
    case False
    have "\<forall>a\<in>set G. \<forall>b\<in>set (concat (groupByExtension_step g gs x)). \<not> areSameExtensions (g a) (g b)"
      unfolding set_groupByExtension_step using sepG False by blast
    moreover from Cons.IH [OF gs sep]
    have "separated (\<lambda>x y. areSameExtensions (g x) (g y)) (groupByExtension_step g gs x)" .
    ultimately show ?thesis
      using False nonempty inG by (simp add: groupByExtension_step_Cons)
  qed
qed

lemma separated_foldl_groupByExtension_step:
  assumes trans: "\<forall>x\<in>S. \<forall>y\<in>S. \<forall>z\<in>S. areSameExtensions (g x) (g y) \<longrightarrow>
      areSameExtensions (g y) (g z) \<longrightarrow> areSameExtensions (g x) (g z)"
  shows "set xs \<subseteq> S \<Longrightarrow> set (concat gs) \<subseteq> S \<Longrightarrow>
     separated (\<lambda>x y. areSameExtensions (g x) (g y)) gs \<Longrightarrow>
     separated (\<lambda>x y. areSameExtensions (g x) (g y)) (foldl (groupByExtension_step g) gs xs)"
proof (induction xs arbitrary: gs)
  case Nil
  then show ?case by simp
next
  case (Cons x xs)
  from Cons.prems have x: "x \<in> S" and xs: "set xs \<subseteq> S" by auto
  from separated_groupByExtension_step [OF trans x Cons.prems(2,3)]
  have 1: "separated (\<lambda>x y. areSameExtensions (g x) (g y)) (groupByExtension_step g gs x)" .
  have 2: "set (concat (groupByExtension_step g gs x)) \<subseteq> S"
    unfolding set_groupByExtension_step using x Cons.prems(2) by blast
  from Cons.IH [OF xs 2 1] show ?case by simp
qed

lemma separated_groups:
  assumes "separated (\<lambda>x y. areSameExtensions (g x) (g y)) gs"
  shows "distinct gs
     \<and> (\<forall>G\<in>set gs. G \<noteq> [] \<and> (\<forall>x\<in>set G. \<forall>y\<in>set G. areSameExtensions (g x) (g y)))
     \<and> (\<forall>G\<in>set gs. \<forall>G'\<in>set gs. G \<noteq> G' \<longrightarrow>
           (\<forall>x\<in>set G. \<forall>y\<in>set G'. \<not> areSameExtensions (g x) (g y)))"
  using assms
proof (induction gs)
  case Nil
  then show ?case by simp
next
  case (Cons G gs)
  from Cons.prems have nonempty: "G \<noteq> []"
    and inG: "\<forall>a\<in>set G. \<forall>b\<in>set G. areSameExtensions (g a) (g b)"
    and sepG: "\<forall>a\<in>set G. \<forall>G'\<in>set gs. \<forall>b\<in>set G'. \<not> areSameExtensions (g a) (g b)"
    and sep: "separated (\<lambda>x y. areSameExtensions (g x) (g y)) gs"
    by auto
  from Cons.IH [OF sep] have dist: "distinct gs"
    and groups: "\<forall>G\<in>set gs. G \<noteq> [] \<and> (\<forall>x\<in>set G. \<forall>y\<in>set G. areSameExtensions (g x) (g y))"
    and cross: "\<forall>G\<in>set gs. \<forall>G'\<in>set gs. G \<noteq> G' \<longrightarrow>
           (\<forall>x\<in>set G. \<forall>y\<in>set G'. \<not> areSameExtensions (g x) (g y))"
    by blast+
  have notin: "G \<notin> set gs"
  proof
    assume "G \<in> set gs"
    moreover from nonempty have "hd G \<in> set G" by simp
    ultimately have "\<not> areSameExtensions (g (hd G)) (g (hd G))" using sepG by blast
    then show False by (simp add: areSameExtensions_refl)
  qed
  have sepG': "\<forall>G'\<in>set gs. \<forall>a\<in>set G'. \<forall>b\<in>set G. \<not> areSameExtensions (g a) (g b)"
    using sepG areSameExtensions_sym by blast
  have 1: "distinct (G # gs)" using notin dist by simp
  have 2: "\<forall>G\<in>set (G # gs). G \<noteq> [] \<and> (\<forall>x\<in>set G. \<forall>y\<in>set G. areSameExtensions (g x) (g y))"
    using nonempty inG groups by simp
  have 3: "\<forall>A\<in>set (G # gs). \<forall>B\<in>set (G # gs). A \<noteq> B \<longrightarrow>
           (\<forall>x\<in>set A. \<forall>y\<in>set B. \<not> areSameExtensions (g x) (g y))"
  proof (intro ballI impI)
    fix A B x y
    assume A: "A \<in> set (G # gs)" and B: "B \<in> set (G # gs)" and ne: "A \<noteq> B"
      and x: "x \<in> set A" and y: "y \<in> set B"
    show "\<not> areSameExtensions (g x) (g y)"
    proof (cases "A = G")
      case True
      with B ne have "B \<in> set gs" by auto
      with sepG True x y show ?thesis by blast
    next
      case False
      with A have Ags: "A \<in> set gs" by simp
      show ?thesis
      proof (cases "B = G")
        case True
        with sepG' Ags x y show ?thesis by blast
      next
        case False
        with B have "B \<in> set gs" by simp
        with cross Ags ne x y show ?thesis by blast
      qed
    qed
  qed
  from 1 2 3 show ?case by blast
qed

lemma length_identityClasses:
  assumes trans: "\<forall>x\<in>set xs. \<forall>y\<in>set xs. \<forall>z\<in>set xs. areSameExtensions (g x) (g y) \<longrightarrow>
      areSameExtensions (g y) (g z) \<longrightarrow> areSameExtensions (g x) (g z)"
    and sep: "separated (\<lambda>x y. areSameExtensions (g x) (g y)) gs"
    and cover: "set (concat gs) = set xs"
  shows "length (identityClasses g xs) = length gs"
proof -
  define F where "F = (\<lambda>x. filter (\<lambda>y. areSameExtensions (g x) (g y)) xs)"
  define H where "H = (\<lambda>G. F (hd G))"
  from separated_groups [OF sep] have dist: "distinct gs"
    and groups: "\<forall>G\<in>set gs. G \<noteq> [] \<and> (\<forall>x\<in>set G. \<forall>y\<in>set G. areSameExtensions (g x) (g y))"
    and cross: "\<forall>G\<in>set gs. \<forall>G'\<in>set gs. G \<noteq> G' \<longrightarrow>
           (\<forall>x\<in>set G. \<forall>y\<in>set G'. \<not> areSameExtensions (g x) (g y))"
    by blast+
  have sub: "set G \<subseteq> set xs" if "G \<in> set gs" for G
    using that cover by auto
  have hd_in: "hd G \<in> set G" if "G \<in> set gs" for G
    using that groups by simp
  have same_class: "F x = H G" if G: "G \<in> set gs" and x: "x \<in> set G" for G x
    unfolding H_def F_def
  proof (rule filter_cong [OF refl])
    fix y assume y: "y \<in> set xs"
    from groups G x hd_in [OF G] have 1: "areSameExtensions (g x) (g (hd G))"
      and 2: "areSameExtensions (g (hd G)) (g x)" by blast+
    from sub [OF G] x hd_in [OF G] have xs: "x \<in> set xs" "hd G \<in> set xs" by blast+
    show "areSameExtensions (g x) (g y) = areSameExtensions (g (hd G)) (g y)"
      using trans xs y 1 2 by blast
  qed
  have image: "F ` set xs = H ` set gs"
  proof
    show "F ` set xs \<subseteq> H ` set gs"
    proof
      fix c assume "c \<in> F ` set xs"
      then obtain x where x: "x \<in> set xs" "c = F x" by blast
      with cover obtain G where "G \<in> set gs" "x \<in> set G" by auto
      with same_class x(2) show "c \<in> H ` set gs" by blast
    qed
  next
    show "H ` set gs \<subseteq> F ` set xs"
    proof
      fix c assume "c \<in> H ` set gs"
      then obtain G where G: "G \<in> set gs" "c = H G" by blast
      with hd_in sub have "hd G \<in> set xs" by blast
      with G(2) show "c \<in> F ` set xs" unfolding H_def by blast
    qed
  qed
  have inj: "inj_on H (set gs)"
  proof (rule inj_onI)
    fix A B assume A: "A \<in> set gs" and B: "B \<in> set gs" and eq: "H A = H B"
    show "A = B"
    proof (rule ccontr)
      assume ne: "A \<noteq> B"
      from hd_in [OF A] sub [OF A] have "hd A \<in> set xs" by blast
      then have "hd A \<in> set (H A)"
        unfolding H_def F_def by (simp add: areSameExtensions_refl)
      with eq have "hd A \<in> set (H B)" by simp
      then have "hd A \<in> set (filter (\<lambda>y. areSameExtensions (g (hd B)) (g y)) xs)"
        unfolding H_def F_def .
      then have "areSameExtensions (g (hd B)) (g (hd A))"
        by (simp only: set_filter mem_Collect_eq)
      moreover have "\<not> areSameExtensions (g (hd B)) (g (hd A))"
      proof -
        from ne have "B \<noteq> A" by simp
        from cross [rule_format, OF B A this hd_in [OF B] hd_in [OF A]] show ?thesis .
      qed
      ultimately show False by (simp only:)
    qed
  qed
  have "length (identityClasses g xs) = card (F ` set xs)"
    unfolding identityClasses_def F_def by (simp add: length_remdups_card_conv)
  also have "\<dots> = card (H ` set gs)" by (simp only: image)
  also have "\<dots> = card (set gs)" by (rule card_image [OF inj])
  also have "\<dots> = length gs" by (rule distinct_card [OF dist])
  finally show ?thesis .
qed

text \<open>
  Claim C6, amended: the concatenation of the groups is a permutation of the input, so every
  input item is in exactly one group; and when \<open>areSameExtensions\<close> is transitive on the
  identifiers of the input (as it is when all of them carry a non-empty uuid, or none carries
  a uuid), the number of
  groups is the number of distinct identity classes of the input.
\<close>

theorem groupByExtension_partition:
  "mset (concat (groupByExtension extensions getExtensionIdentifier)) = mset extensions
   \<and> ((\<forall>x\<in>set extensions. \<forall>y\<in>set extensions. \<forall>z\<in>set extensions.
          areSameExtensions (getExtensionIdentifier x) (getExtensionIdentifier y) \<longrightarrow>
          areSameExtensions (getExtensionIdentifier y) (getExtensionIdentifier z) \<longrightarrow>
          areSameExtensions (getExtensionIdentifier x) (getExtensionIdentifier z)) \<longrightarrow>
        length (groupByExtension extensions getExtensionIdentifier)
          = length (identityClasses getExtensionIdentifier extensions))"
proof (intro conjI impI)
  show m: "mset (concat (groupByExtension extensions getExtensionIdentifier)) = mset extensions"
    by (simp add: groupByExtension_def mset_foldl_groupByExtension_step)
  assume trans: "\<forall>x\<in>set extensions. \<forall>y\<in>set extensions. \<forall>z\<in>set extensions.
          areSameExtensions (getExtensionIdentifier x) (getExtensionIdentifier y) \<longrightarrow>
          areSameExtensions (getExtensionIdentifier y) (getExtensionIdentifier z) \<longrightarrow>
          areSameExtensions (getExtensionIdentifier x) (getExtensionIdentifier z)"
  have sep: "separated (\<lambda>x y. areSameExtensions (getExtensionIdentifier x) (getExtensionIdentifier y))
      (groupByExtension extensions getExtensionIdentifier)"
    unfolding groupByExtension_def
    by (rule separated_foldl_groupByExtension_step [OF trans]) simp_all
  from m have "set_mset (mset (concat (groupByExtension extensions getExtensionIdentifier)))
      = set_mset (mset extensions)" by (simp only:)
  then have cover: "set (concat (groupByExtension extensions getExtensionIdentifier)) = set extensions"
    by (simp only: set_mset_mset)
  from length_identityClasses [OF trans sep cover]
  show "length (groupByExtension extensions getExtensionIdentifier)
          = length (identityClasses getExtensionIdentifier extensions)" by simp
qed

lemmas group_eval =
  groupByExtension_def groupByExtension_step_def identityClasses_def
  areSameExtensions_def truthy_def toUpperAscii_def

theorem groupByExtension_partition_witness:
  "groupByExtension
     [\<lparr>id' = ''a.b'', uuid = None\<rparr>, \<lparr>id' = ''c.d'', uuid = None\<rparr>, \<lparr>id' = ''A.B'', uuid = None\<rparr>]
     (\<lambda>x. x)
     = [[\<lparr>id' = ''a.b'', uuid = None\<rparr>, \<lparr>id' = ''A.B'', uuid = None\<rparr>], [\<lparr>id' = ''c.d'', uuid = None\<rparr>]]
   \<and> length (identityClasses (\<lambda>x. x)
       [\<lparr>id' = ''a.b'', uuid = None\<rparr>, \<lparr>id' = ''c.d'', uuid = None\<rparr>, \<lparr>id' = ''A.B'', uuid = None\<rparr>])
     = 2"
proof -
  let ?xs = "[\<lparr>id' = ''a.b'', uuid = None\<rparr>, \<lparr>id' = ''c.d'', uuid = None\<rparr>, \<lparr>id' = ''A.B'', uuid = None\<rparr>]"
  have trans: "\<forall>x\<in>set ?xs. \<forall>y\<in>set ?xs. \<forall>z\<in>set ?xs.
      areSameExtensions x y \<longrightarrow> areSameExtensions y z \<longrightarrow> areSameExtensions x z"
    by (simp add: areSameExtensions_def truthy_def toUpperAscii_def)
  have groups: "groupByExtension ?xs (\<lambda>x. x)
     = [[\<lparr>id' = ''a.b'', uuid = None\<rparr>, \<lparr>id' = ''A.B'', uuid = None\<rparr>], [\<lparr>id' = ''c.d'', uuid = None\<rparr>]]"
    by (simp add: group_eval)
  from groupByExtension_partition [of ?xs "\<lambda>x. x"] trans
  have "length (groupByExtension ?xs (\<lambda>x. x)) = length (identityClasses (\<lambda>x. x) ?xs)"
    by blast
  with groups show ?thesis by simp
qed

text \<open>
  Claim C6, as stated, counts the identity classes of any input. \<open>areSameExtensions\<close> is not
  transitive, and then the number of groups depends on the order of the input: the identifiers
  \<open>{x, uuid 1}\<close>, \<open>{x, uuid 2}\<close>, \<open>{x}\<close> fall into two groups in this order and into one
  group when \<open>{x}\<close> comes first, while the three have three distinct classes (each of the
  first two is the same extension as itself and \<open>{x}\<close>, and \<open>{x}\<close> as all three).
\<close>

theorem groupByExtension_classes_counterexample:
  "length (groupByExtension
      [\<lparr>id' = ''x'', uuid = Some ''1''\<rparr>, \<lparr>id' = ''x'', uuid = Some ''2''\<rparr>, \<lparr>id' = ''x'', uuid = None\<rparr>]
      (\<lambda>x. x)) = 2
   \<and> length (identityClasses (\<lambda>x. x)
      [\<lparr>id' = ''x'', uuid = Some ''1''\<rparr>, \<lparr>id' = ''x'', uuid = Some ''2''\<rparr>, \<lparr>id' = ''x'', uuid = None\<rparr>]) = 3
   \<and> length (groupByExtension
      [\<lparr>id' = ''x'', uuid = None\<rparr>, \<lparr>id' = ''x'', uuid = Some ''1''\<rparr>, \<lparr>id' = ''x'', uuid = Some ''2''\<rparr>]
      (\<lambda>x. x)) = 1
   \<and> length (identityClasses (\<lambda>x. x)
      [\<lparr>id' = ''x'', uuid = None\<rparr>, \<lparr>id' = ''x'', uuid = Some ''1''\<rparr>, \<lparr>id' = ''x'', uuid = Some ''2''\<rparr>]) = 3"
  by (simp add: group_eval)

section \<open>Properties of the dependency resolution\<close>

lemma dependencies_loop_Nil: "dependencies_loop installed deps [] = Some deps"
  by (simp add: dependencies_loop.simps)

lemma dependencies_loop_Cons:
  "dependencies_loop installed deps (depId # extensions) =
     (if depId \<noteq> [] \<and> (\<forall>e\<in>set deps. \<not> areSameExtensions (identifier e) \<lparr>id' = depId, uuid = None\<rparr>)
      then (case filter (\<lambda>e. areSameExtensions (identifier e) \<lparr>id' = depId, uuid = None\<rparr>) installed of
              [ext] \<Rightarrow> dependencies_loop installed (deps @ [ext]) (extensions @ dependencyIds ext)
            | _ \<Rightarrow> dependencies_loop installed deps extensions)
      else dependencies_loop installed deps extensions)"
proof -
  let ?ext = "filter (\<lambda>e. areSameExtensions (identifier e) \<lparr>id' = depId, uuid = None\<rparr>) installed"
  show ?thesis
  proof (cases "length ?ext = 1")
    case True
    then obtain x where x: "?ext = [x]" by (cases ?ext) auto
    show ?thesis
      by (subst dependencies_loop.simps) (simp add: x list_all_iff Let_def)
  next
    case False
    show ?thesis
      apply (subst dependencies_loop.simps)
      using False by (cases ?ext) (auto simp: list_all_iff Let_def split: list.splits)
  qed
qed

text \<open>
  Each round either drops the id at the front of the queue, or accepts an installed extension
  that is not yet among the dependencies: the pair of the number of installed extensions not
  yet accepted and the length of the queue decreases.
\<close>

lemma dependencies_loop_induct [case_names stop skip accept]:
  assumes stop: "\<And>deps. P deps []"
    and skip: "\<And>deps d q.
      \<not> (d \<noteq> [] \<and> (\<forall>e\<in>set deps. \<not> areSameExtensions (identifier e) \<lparr>id' = d, uuid = None\<rparr>)
         \<and> (\<exists>x. filter (\<lambda>e. areSameExtensions (identifier e) \<lparr>id' = d, uuid = None\<rparr>) installed = [x]))
      \<Longrightarrow> P deps q \<Longrightarrow> P deps (d # q)"
    and accept: "\<And>deps d q x.
      d \<noteq> [] \<Longrightarrow> \<forall>e\<in>set deps. \<not> areSameExtensions (identifier e) \<lparr>id' = d, uuid = None\<rparr>
      \<Longrightarrow> filter (\<lambda>e. areSameExtensions (identifier e) \<lparr>id' = d, uuid = None\<rparr>) installed = [x]
      \<Longrightarrow> P (deps @ [x]) (q @ dependencyIds x) \<Longrightarrow> P deps (d # q)"
  shows "P deps q"
proof -
  have "\<forall>deps q. card (set installed - set deps) = n \<longrightarrow> P deps q" for n
  proof (induction n rule: less_induct)
    case (less n)
    have "P deps q" if n: "card (set installed - set deps) = n" for deps q
    proof (induction q)
      case Nil
      show ?case by (rule stop)
    next
      case (Cons d q)
      let ?ext = "filter (\<lambda>e. areSameExtensions (identifier e) \<lparr>id' = d, uuid = None\<rparr>) installed"
      show ?case
      proof (cases "d \<noteq> [] \<and> (\<forall>e\<in>set deps. \<not> areSameExtensions (identifier e) \<lparr>id' = d, uuid = None\<rparr>)
                    \<and> (\<exists>x. ?ext = [x])")
        case True
        then obtain x where x: "?ext = [x]" by blast
        then have "x \<in> set ?ext" by simp
        then have xin: "x \<in> set installed"
          and xm: "areSameExtensions (identifier x) \<lparr>id' = d, uuid = None\<rparr>" by simp_all
        with True have xnot: "x \<notin> set deps" by blast
        have "set installed - set (deps @ [x]) \<subset> set installed - set deps"
          using xin xnot by auto
        then have "card (set installed - set (deps @ [x])) < n"
          unfolding n [symmetric] by (intro psubset_card_mono) simp_all
        with less.IH have "P (deps @ [x]) (q @ dependencyIds x)" by blast
        with True x show ?thesis by (intro accept) simp_all
      next
        case False
        from skip [OF False Cons] show ?thesis .
      qed
    qed
    then show ?case by blast
  qed
  then show ?thesis by blast
qed

lemma dependencies_loop_skip:
  assumes "\<not> (d \<noteq> [] \<and> (\<forall>e\<in>set deps. \<not> areSameExtensions (identifier e) \<lparr>id' = d, uuid = None\<rparr>)
         \<and> (\<exists>x. filter (\<lambda>e. areSameExtensions (identifier e) \<lparr>id' = d, uuid = None\<rparr>) installed = [x]))"
  shows "dependencies_loop installed deps (d # q) = dependencies_loop installed deps q"
  using assms by (auto simp: dependencies_loop_Cons split: list.splits)

lemma dependencies_loop_accept:
  assumes "d \<noteq> []" "\<forall>e\<in>set deps. \<not> areSameExtensions (identifier e) \<lparr>id' = d, uuid = None\<rparr>"
    "filter (\<lambda>e. areSameExtensions (identifier e) \<lparr>id' = d, uuid = None\<rparr>) installed = [x]"
  shows "dependencies_loop installed deps (d # q)
           = dependencies_loop installed (deps @ [x]) (q @ dependencyIds x)"
  using assms by (simp add: dependencies_loop_Cons)

lemma dependencies_loop_total: "\<exists>r. dependencies_loop installed deps q = Some r"
proof (induction deps q rule: dependencies_loop_induct [where installed = installed])
  case (stop deps)
  show ?case by (simp add: dependencies_loop_Nil)
next
  case (skip deps d q)
  from skip(1) have "dependencies_loop installed deps (d # q) = dependencies_loop installed deps q"
    by (rule dependencies_loop_skip)
  with skip(2) show ?case by simp
next
  case (accept deps d q x)
  from accept(1-3) have "dependencies_loop installed deps (d # q)
      = dependencies_loop installed (deps @ [x]) (q @ dependencyIds x)"
    by (rule dependencies_loop_accept)
  with accept(4) show ?case by simp
qed

text \<open>
  Every extension of the result was among the dependencies at the start, or is the single
  installed extension that matches an id of the queue or an id that an extension of the result
  declares.
\<close>

lemma dependencies_loop_origin:
  "dependencies_loop installed deps q = Some r \<Longrightarrow>
     set deps \<subseteq> set r
     \<and> (\<forall>e\<in>set r. e \<in> set deps
           \<or> (\<exists>d\<in>set q \<union> (\<Union>x\<in>set r. set (dependencyIds x)). d \<noteq> []
                 \<and> filter (\<lambda>e. areSameExtensions (identifier e) \<lparr>id' = d, uuid = None\<rparr>) installed = [e]))"
proof (induction deps q arbitrary: r rule: dependencies_loop_induct [where installed = installed])
  case (stop deps)
  then show ?case by (simp add: dependencies_loop_Nil)
next
  case (skip deps d q)
  from skip.prems have "dependencies_loop installed deps q = Some r"
    by (simp only: dependencies_loop_skip [OF skip.hyps(1)])
  from skip.IH [OF this] show ?case by auto
next
  case (accept deps d q x)
  from accept.prems have "dependencies_loop installed (deps @ [x]) (q @ dependencyIds x) = Some r"
    by (simp only: dependencies_loop_accept [OF accept.hyps(1-3)])
  from accept.IH [OF this] have sub: "set (deps @ [x]) \<subseteq> set r"
    and orig: "\<forall>e\<in>set r. e \<in> set (deps @ [x])
           \<or> (\<exists>d\<in>set (q @ dependencyIds x) \<union> (\<Union>x\<in>set r. set (dependencyIds x)). d \<noteq> []
                 \<and> filter (\<lambda>e. areSameExtensions (identifier e) \<lparr>id' = d, uuid = None\<rparr>) installed = [e])"
    by blast+
  from sub have xr: "x \<in> set r" and sub': "set deps \<subseteq> set r" by auto
  have "e \<in> set deps
           \<or> (\<exists>d\<in>set (d # q) \<union> (\<Union>x\<in>set r. set (dependencyIds x)). d \<noteq> []
                 \<and> filter (\<lambda>e. areSameExtensions (identifier e) \<lparr>id' = d, uuid = None\<rparr>) installed = [e])"
    if e: "e \<in> set r" for e
  proof (cases "e \<in> set deps")
    case True
    then show ?thesis by simp
  next
    case False
    show ?thesis
    proof (cases "e = x")
      case True
      with accept.hyps(1,3) show ?thesis by auto
    next
      case ne: False
      from orig e have "e \<in> set (deps @ [x])
           \<or> (\<exists>d\<in>set (q @ dependencyIds x) \<union> (\<Union>x\<in>set r. set (dependencyIds x)). d \<noteq> []
                 \<and> filter (\<lambda>e. areSameExtensions (identifier e) \<lparr>id' = d, uuid = None\<rparr>) installed = [e])"
        by blast
      with False ne have "\<exists>d\<in>set (q @ dependencyIds x) \<union> (\<Union>x\<in>set r. set (dependencyIds x)). d \<noteq> []
                 \<and> filter (\<lambda>e. areSameExtensions (identifier e) \<lparr>id' = d, uuid = None\<rparr>) installed = [e]"
        by simp
      then obtain d' where
        d': "d' \<in> set (q @ dependencyIds x) \<union> (\<Union>x\<in>set r. set (dependencyIds x))" "d' \<noteq> []"
        "filter (\<lambda>e. areSameExtensions (identifier e) \<lparr>id' = d', uuid = None\<rparr>) installed = [e]"
        by blast
      from d'(1) xr have "d' \<in> set (d # q) \<union> (\<Union>x\<in>set r. set (dependencyIds x))" by auto
      with d'(2,3) show ?thesis by blast
    qed
  qed
  with sub' show ?case by blast
qed

lemma dependencies_loop_prefix:
  "dependencies_loop installed deps q = Some r \<Longrightarrow> \<exists>s. r = deps @ s"
proof (induction deps q arbitrary: r rule: dependencies_loop_induct [where installed = installed])
  case (stop deps)
  then show ?case by (simp add: dependencies_loop_Nil)
next
  case (skip deps d q)
  from skip.prems have "dependencies_loop installed deps q = Some r"
    by (simp only: dependencies_loop_skip [OF skip.hyps(1)])
  from skip.IH [OF this] show ?case .
next
  case (accept deps d q x)
  from accept.prems have "dependencies_loop installed (deps @ [x]) (q @ dependencyIds x) = Some r"
    by (simp only: dependencies_loop_accept [OF accept.hyps(1-3)])
  from accept.IH [OF this] show ?case by auto
qed

lemma dependencies_loop_distinct:
  "dependencies_loop installed deps q = Some r \<Longrightarrow> distinct deps \<Longrightarrow> distinct r"
proof (induction deps q arbitrary: r rule: dependencies_loop_induct [where installed = installed])
  case (stop deps)
  then show ?case by (simp add: dependencies_loop_Nil)
next
  case (skip deps d q)
  from skip.prems(1) have "dependencies_loop installed deps q = Some r"
    by (simp only: dependencies_loop_skip [OF skip.hyps(1)])
  from skip.IH [OF this skip.prems(2)] show ?case .
next
  case (accept deps d q x)
  from accept.prems(1) have 1: "dependencies_loop installed (deps @ [x]) (q @ dependencyIds x) = Some r"
    by (simp only: dependencies_loop_accept [OF accept.hyps(1-3)])
  from accept.hyps(3) have "x \<in> set (filter (\<lambda>e. areSameExtensions (identifier e) \<lparr>id' = d, uuid = None\<rparr>) installed)"
    by simp
  then have "areSameExtensions (identifier x) \<lparr>id' = d, uuid = None\<rparr>" by simp
  with accept.hyps(2) have "x \<notin> set deps" by blast
  with accept.prems(2) have "distinct (deps @ [x])" by simp
  from accept.IH [OF 1 this] show ?case .
qed

lemma areSameExtensions_id_only:
  "areSameExtensions a \<lparr>id' = d, uuid = None\<rparr> \<longleftrightarrow> compareIgnoreCase (id' a) d = 0"
  by (auto simp: areSameExtensions_def truthy_def compareIgnoreCase_refl)

lemma matches_of_equal_ids:
  assumes "areSameExtensions (identifier e) \<lparr>id' = d, uuid = None\<rparr>"
    and "areSameExtensions (identifier e) \<lparr>id' = d', uuid = None\<rparr>"
  shows "filter (\<lambda>x. areSameExtensions (identifier x) \<lparr>id' = d, uuid = None\<rparr>) installed
       = filter (\<lambda>x. areSameExtensions (identifier x) \<lparr>id' = d', uuid = None\<rparr>) installed"
proof (rule filter_cong [OF refl])
  fix x
  from assms have "compareIgnoreCase d d' = 0"
    unfolding areSameExtensions_id_only
    using compareIgnoreCase_sym compareIgnoreCase_trans by blast
  then show "areSameExtensions (identifier x) \<lparr>id' = d, uuid = None\<rparr>
       = areSameExtensions (identifier x) \<lparr>id' = d', uuid = None\<rparr>"
    unfolding areSameExtensions_id_only
    using compareIgnoreCase_sym compareIgnoreCase_trans by blast
qed

text \<open>An id with no or with several installed matches never brings an extension into the result.\<close>

lemma dependencies_loop_unmatched:
  assumes r: "dependencies_loop installed deps q = Some r"
    and n: "length (filter (\<lambda>x. areSameExtensions (identifier x) \<lparr>id' = d, uuid = None\<rparr>) installed) \<noteq> 1"
    and e: "e \<in> set r" "areSameExtensions (identifier e) \<lparr>id' = d, uuid = None\<rparr>"
  shows "e \<in> set deps"
proof (rule ccontr)
  assume "e \<notin> set deps"
  with dependencies_loop_origin [OF r] e(1) obtain d' where
    "filter (\<lambda>x. areSameExtensions (identifier x) \<lparr>id' = d', uuid = None\<rparr>) installed = [e]"
    by blast
  moreover from this have "e \<in> set (filter (\<lambda>x. areSameExtensions (identifier x) \<lparr>id' = d', uuid = None\<rparr>) installed)"
    by simp
  then have "areSameExtensions (identifier e) \<lparr>id' = d', uuid = None\<rparr>" by simp
  from matches_of_equal_ids [OF e(2) this, of installed]
  have "filter (\<lambda>x. areSameExtensions (identifier x) \<lparr>id' = d, uuid = None\<rparr>) installed
       = filter (\<lambda>x. areSameExtensions (identifier x) \<lparr>id' = d', uuid = None\<rparr>) installed" .
  ultimately show False using n by simp
qed

text \<open>
  Claim C7: \<open>getExtensionDependencies\<close> terminates on every list of installed extensions and
  every extension, cyclic manifests included: the run of the loop ends with a result. Only
  installed extensions that are not yet accepted are accepted, so the result has no extension
  twice and at most as many extensions as are installed.
\<close>

theorem getExtensionDependencies_terminates:
  "\<exists>r. getExtensionDependencies installedExtensions extension = Some r
       \<and> distinct r \<and> set r \<subseteq> set installedExtensions"
proof -
  from dependencies_loop_total obtain r where
    r: "dependencies_loop installedExtensions [] (dependencyIds extension) = Some r" by blast
  from dependencies_loop_distinct [OF r] have "distinct r" by simp
  moreover have "e \<in> set installedExtensions" if "e \<in> set r" for e
  proof -
    from dependencies_loop_origin [OF r] that obtain d where
      "filter (\<lambda>x. areSameExtensions (identifier x) \<lparr>id' = d, uuid = None\<rparr>) installedExtensions = [e]"
      by auto
    then have "e \<in> set (filter (\<lambda>x. areSameExtensions (identifier x) \<lparr>id' = d, uuid = None\<rparr>) installedExtensions)"
      by simp
    then show ?thesis by simp
  qed
  ultimately show ?thesis using r by (auto simp: getExtensionDependencies_def)
qed

lemmas dependencies_eval =
  getExtensionDependencies_def dependencyIds_def dependencies_loop_Cons dependencies_loop_Nil
  areSameExtensions_def truthy_def toUpperAscii_def

theorem getExtensionDependencies_terminates_witness:
  "\<exists>r. getExtensionDependencies
          [\<lparr>identifier = \<lparr>id' = ''a.one'', uuid = None\<rparr>,
             manifest = \<lparr>extensionDependencies = Some [''a.two'']\<rparr>\<rparr>,
           \<lparr>identifier = \<lparr>id' = ''a.two'', uuid = None\<rparr>,
             manifest = \<lparr>extensionDependencies = Some [''a.one'']\<rparr>\<rparr>]
          \<lparr>identifier = \<lparr>id' = ''a.one'', uuid = None\<rparr>,
            manifest = \<lparr>extensionDependencies = Some [''a.two'']\<rparr>\<rparr> = Some r"
  using getExtensionDependencies_terminates by blast

text \<open>
  Claim C1, as stated: the result never contains the root extension. With \<open>a.one\<close> depending
  on \<open>a.two\<close> and \<open>a.two\<close> on \<open>a.one\<close>, both installed, resolving from \<open>a.one\<close> accepts
  \<open>a.two\<close>, whose dependency \<open>a.one\<close> is installed and not yet accepted: the result is
  \<open>[a.two, a.one]\<close>.
\<close>

theorem getExtensionDependencies_cycle_counterexample:
  "getExtensionDependencies
     [\<lparr>identifier = \<lparr>id' = ''a.one'', uuid = None\<rparr>,
        manifest = \<lparr>extensionDependencies = Some [''a.two'']\<rparr>\<rparr>,
      \<lparr>identifier = \<lparr>id' = ''a.two'', uuid = None\<rparr>,
        manifest = \<lparr>extensionDependencies = Some [''a.one'']\<rparr>\<rparr>]
     \<lparr>identifier = \<lparr>id' = ''a.one'', uuid = None\<rparr>,
       manifest = \<lparr>extensionDependencies = Some [''a.two'']\<rparr>\<rparr>
   = Some [\<lparr>identifier = \<lparr>id' = ''a.two'', uuid = None\<rparr>,
             manifest = \<lparr>extensionDependencies = Some [''a.one'']\<rparr>\<rparr>,
           \<lparr>identifier = \<lparr>id' = ''a.one'', uuid = None\<rparr>,
             manifest = \<lparr>extensionDependencies = Some [''a.two'']\<rparr>\<rparr>]"
  by (simp add: dependencies_eval)

lemma root_only_when_matched:
  assumes "getExtensionDependencies installedExtensions extension = Some r" "extension \<in> set r"
  shows "extension \<in> set installedExtensions
     \<and> (\<exists>d\<in>set (dependencyIds extension) \<union> (\<Union>x\<in>set r. set (dependencyIds x)). d \<noteq> []
           \<and> filter (\<lambda>e. areSameExtensions (identifier e) \<lparr>id' = d, uuid = None\<rparr>) installedExtensions
               = [extension])"
proof -
  from assms(1) have r: "dependencies_loop installedExtensions [] (dependencyIds extension) = Some r"
    by (simp add: getExtensionDependencies_def)
  from dependencies_loop_origin [OF r] assms(2)
  have "\<exists>d\<in>set (dependencyIds extension) \<union> (\<Union>x\<in>set r. set (dependencyIds x)). d \<noteq> []
          \<and> filter (\<lambda>e. areSameExtensions (identifier e) \<lparr>id' = d, uuid = None\<rparr>) installedExtensions
              = [extension]"
    by simp
  then obtain d where
    d: "d \<in> set (dependencyIds extension) \<union> (\<Union>x\<in>set r. set (dependencyIds x))" "d \<noteq> []"
    "filter (\<lambda>e. areSameExtensions (identifier e) \<lparr>id' = d, uuid = None\<rparr>) installedExtensions = [extension]"
    by blast
  from d(3) have "extension \<in> set (filter (\<lambda>e. areSameExtensions (identifier e) \<lparr>id' = d, uuid = None\<rparr>) installedExtensions)"
    by simp
  then have "extension \<in> set installedExtensions" by simp
  with d show ?thesis by blast
qed

text \<open>
  Claim C1, amended: the result contains the root extension only when the root is itself
  installed and is the single installed extension matching a dependency id that the root or an
  extension of the result declares, that is when the root is reachable from its own
  dependencies; nothing in the loop excludes it then. For the cyclic manifests of \<open>a.one\<close> and
  \<open>a.two\<close>, resolving from \<open>a.one\<close> returns \<open>[a.two, a.one]\<close>.
\<close>

theorem getExtensionDependencies_root:
  "(getExtensionDependencies installedExtensions extension = Some r \<longrightarrow> extension \<in> set r \<longrightarrow>
      extension \<in> set installedExtensions
      \<and> (\<exists>d\<in>set (dependencyIds extension) \<union> (\<Union>x\<in>set r. set (dependencyIds x)). d \<noteq> []
            \<and> filter (\<lambda>e. areSameExtensions (identifier e) \<lparr>id' = d, uuid = None\<rparr>) installedExtensions
                = [extension]))
   \<and> getExtensionDependencies
        [\<lparr>identifier = \<lparr>id' = ''a.one'', uuid = None\<rparr>,
           manifest = \<lparr>extensionDependencies = Some [''a.two'']\<rparr>\<rparr>,
         \<lparr>identifier = \<lparr>id' = ''a.two'', uuid = None\<rparr>,
           manifest = \<lparr>extensionDependencies = Some [''a.one'']\<rparr>\<rparr>]
        \<lparr>identifier = \<lparr>id' = ''a.one'', uuid = None\<rparr>,
          manifest = \<lparr>extensionDependencies = Some [''a.two'']\<rparr>\<rparr>
      = Some [\<lparr>identifier = \<lparr>id' = ''a.two'', uuid = None\<rparr>,
                manifest = \<lparr>extensionDependencies = Some [''a.one'']\<rparr>\<rparr>,
              \<lparr>identifier = \<lparr>id' = ''a.one'', uuid = None\<rparr>,
                manifest = \<lparr>extensionDependencies = Some [''a.two'']\<rparr>\<rparr>]"
proof (intro conjI impI)
  assume "getExtensionDependencies installedExtensions extension = Some r" "extension \<in> set r"
  from root_only_when_matched [OF this]
  show "extension \<in> set installedExtensions"
    and "\<exists>d\<in>set (dependencyIds extension) \<union> (\<Union>x\<in>set r. set (dependencyIds x)). d \<noteq> []
            \<and> filter (\<lambda>e. areSameExtensions (identifier e) \<lparr>id' = d, uuid = None\<rparr>) installedExtensions
                = [extension]"
    by blast+
next
  show "getExtensionDependencies
        [\<lparr>identifier = \<lparr>id' = ''a.one'', uuid = None\<rparr>,
           manifest = \<lparr>extensionDependencies = Some [''a.two'']\<rparr>\<rparr>,
         \<lparr>identifier = \<lparr>id' = ''a.two'', uuid = None\<rparr>,
           manifest = \<lparr>extensionDependencies = Some [''a.one'']\<rparr>\<rparr>]
        \<lparr>identifier = \<lparr>id' = ''a.one'', uuid = None\<rparr>,
          manifest = \<lparr>extensionDependencies = Some [''a.two'']\<rparr>\<rparr>
      = Some [\<lparr>identifier = \<lparr>id' = ''a.two'', uuid = None\<rparr>,
                manifest = \<lparr>extensionDependencies = Some [''a.one'']\<rparr>\<rparr>,
              \<lparr>identifier = \<lparr>id' = ''a.one'', uuid = None\<rparr>,
                manifest = \<lparr>extensionDependencies = Some [''a.two'']\<rparr>\<rparr>]"
    by (simp add: dependencies_eval)
qed

theorem getExtensionDependencies_root_witness:
  "getExtensionDependencies
     [\<lparr>identifier = \<lparr>id' = ''b.one'', uuid = None\<rparr>,
        manifest = \<lparr>extensionDependencies = Some [''B.One'']\<rparr>\<rparr>]
     \<lparr>identifier = \<lparr>id' = ''b.one'', uuid = None\<rparr>,
       manifest = \<lparr>extensionDependencies = Some [''B.One'']\<rparr>\<rparr>
     = Some [\<lparr>identifier = \<lparr>id' = ''b.one'', uuid = None\<rparr>,
               manifest = \<lparr>extensionDependencies = Some [''B.One'']\<rparr>\<rparr>]
   \<and> \<lparr>identifier = \<lparr>id' = ''b.one'', uuid = None\<rparr>,
        manifest = \<lparr>extensionDependencies = Some [''B.One'']\<rparr>\<rparr>
       \<in> set [\<lparr>identifier = \<lparr>id' = ''b.one'', uuid = None\<rparr>,
                 manifest = \<lparr>extensionDependencies = Some [''B.One'']\<rparr>\<rparr>]
   \<and> filter (\<lambda>e. areSameExtensions (identifier e) \<lparr>id' = ''B.One'', uuid = None\<rparr>)
        [\<lparr>identifier = \<lparr>id' = ''b.one'', uuid = None\<rparr>,
           manifest = \<lparr>extensionDependencies = Some [''B.One'']\<rparr>\<rparr>]
       = [\<lparr>identifier = \<lparr>id' = ''b.one'', uuid = None\<rparr>,
            manifest = \<lparr>extensionDependencies = Some [''B.One'']\<rparr>\<rparr>]"
proof -
  let ?e = "\<lparr>identifier = \<lparr>id' = ''b.one'', uuid = None\<rparr>,
              manifest = \<lparr>extensionDependencies = Some [''B.One'']\<rparr>\<rparr>"
  have 1: "getExtensionDependencies [?e] ?e = Some [?e]"
    by (simp add: dependencies_eval)
  have 2: "?e \<in> set [?e]" by simp
  from getExtensionDependencies_root [of "[?e]" ?e "[?e]"] 1 2
  have "\<exists>d\<in>set (dependencyIds ?e) \<union> (\<Union>x\<in>set [?e]. set (dependencyIds x)). d \<noteq> []
            \<and> filter (\<lambda>e. areSameExtensions (identifier e) \<lparr>id' = d, uuid = None\<rparr>) [?e] = [?e]"
    by blast
  then have "filter (\<lambda>e. areSameExtensions (identifier e) \<lparr>id' = ''B.One'', uuid = None\<rparr>) [?e] = [?e]"
    by (simp add: dependencyIds_def)
  with 1 2 show ?thesis by blast
qed

text \<open>
  Claim C8, amended: one round of the loop, for an id at the front of the queue that is not empty
  and not already accepted. The run ends with a result \<open>r\<close>. If exactly one installed
  extension matches the id, the run goes on with that extension appended to the dependencies
  and its declared dependency ids appended to the queue, and the result starts with the
  dependencies and that extension. If no or several installed extensions match, the run goes on
  with the rest of the queue, and no extension of the result matches the id.
\<close>

theorem dependencies_loop_round:
  assumes "depId \<noteq> []"
    and "\<forall>e\<in>set dependencies. \<not> areSameExtensions (identifier e) \<lparr>id' = depId, uuid = None\<rparr>"
  shows "\<exists>r. dependencies_loop installedExtensions dependencies (depId # extensions) = Some r
     \<and> (\<forall>ext. filter (\<lambda>e. areSameExtensions (identifier e) \<lparr>id' = depId, uuid = None\<rparr>)
                  installedExtensions = [ext] \<longrightarrow>
            dependencies_loop installedExtensions (dependencies @ [ext])
                (extensions @ dependencyIds ext) = Some r
            \<and> (\<exists>s. r = dependencies @ [ext] @ s))
     \<and> (length (filter (\<lambda>e. areSameExtensions (identifier e) \<lparr>id' = depId, uuid = None\<rparr>)
                   installedExtensions) \<noteq> 1 \<longrightarrow>
            dependencies_loop installedExtensions dependencies extensions = Some r
            \<and> (\<forall>e\<in>set r. \<not> areSameExtensions (identifier e) \<lparr>id' = depId, uuid = None\<rparr>))"
proof -
  let ?ext = "filter (\<lambda>e. areSameExtensions (identifier e) \<lparr>id' = depId, uuid = None\<rparr>) installedExtensions"
  from dependencies_loop_total obtain r where
    r: "dependencies_loop installedExtensions dependencies (depId # extensions) = Some r" by blast
  have one: "dependencies_loop installedExtensions (dependencies @ [ext])
                (extensions @ dependencyIds ext) = Some r \<and> (\<exists>s. r = dependencies @ [ext] @ s)"
    if "?ext = [ext]" for ext
  proof -
    from r have 1: "dependencies_loop installedExtensions (dependencies @ [ext])
                (extensions @ dependencyIds ext) = Some r"
      by (simp only: dependencies_loop_accept [OF assms that])
    from dependencies_loop_prefix [OF 1] show ?thesis using 1 by simp
  qed
  have other: "dependencies_loop installedExtensions dependencies extensions = Some r
            \<and> (\<forall>e\<in>set r. \<not> areSameExtensions (identifier e) \<lparr>id' = depId, uuid = None\<rparr>)"
    if n: "length ?ext \<noteq> 1"
  proof -
    from n have c: "\<not> (depId \<noteq> [] \<and> (\<forall>e\<in>set dependencies. \<not> areSameExtensions (identifier e) \<lparr>id' = depId, uuid = None\<rparr>)
         \<and> (\<exists>x. ?ext = [x]))" by auto
    from r have 1: "dependencies_loop installedExtensions dependencies extensions = Some r"
      by (simp only: dependencies_loop_skip [OF c])
    have "\<not> areSameExtensions (identifier e) \<lparr>id' = depId, uuid = None\<rparr>" if "e \<in> set r" for e
      using dependencies_loop_unmatched [OF 1 n that] assms(2) by blast
    with 1 show ?thesis by blast
  qed
  from r one other show ?thesis by blast
qed

theorem dependencies_loop_round_witness:
  "dependencies_loop
     [\<lparr>identifier = \<lparr>id' = ''a.two'', uuid = None\<rparr>,
        manifest = \<lparr>extensionDependencies = Some [''a.three'']\<rparr>\<rparr>,
      \<lparr>identifier = \<lparr>id' = ''a.three'', uuid = Some ''1''\<rparr>,
        manifest = \<lparr>extensionDependencies = None\<rparr>\<rparr>,
      \<lparr>identifier = \<lparr>id' = ''a.three'', uuid = Some ''2''\<rparr>,
        manifest = \<lparr>extensionDependencies = None\<rparr>\<rparr>]
     [] [''a.two'', ''a.four'']
   = Some [\<lparr>identifier = \<lparr>id' = ''a.two'', uuid = None\<rparr>,
             manifest = \<lparr>extensionDependencies = Some [''a.three'']\<rparr>\<rparr>]
   \<and> dependencies_loop
     [\<lparr>identifier = \<lparr>id' = ''a.two'', uuid = None\<rparr>,
        manifest = \<lparr>extensionDependencies = Some [''a.three'']\<rparr>\<rparr>,
      \<lparr>identifier = \<lparr>id' = ''a.three'', uuid = Some ''1''\<rparr>,
        manifest = \<lparr>extensionDependencies = None\<rparr>\<rparr>,
      \<lparr>identifier = \<lparr>id' = ''a.three'', uuid = Some ''2''\<rparr>,
        manifest = \<lparr>extensionDependencies = None\<rparr>\<rparr>]
     [\<lparr>identifier = \<lparr>id' = ''a.two'', uuid = None\<rparr>,
        manifest = \<lparr>extensionDependencies = Some [''a.three'']\<rparr>\<rparr>]
     [''a.four'', ''a.three'']
   = Some [\<lparr>identifier = \<lparr>id' = ''a.two'', uuid = None\<rparr>,
             manifest = \<lparr>extensionDependencies = Some [''a.three'']\<rparr>\<rparr>]
   \<and> dependencies_loop
     [\<lparr>identifier = \<lparr>id' = ''a.two'', uuid = None\<rparr>,
        manifest = \<lparr>extensionDependencies = Some [''a.three'']\<rparr>\<rparr>,
      \<lparr>identifier = \<lparr>id' = ''a.three'', uuid = Some ''1''\<rparr>,
        manifest = \<lparr>extensionDependencies = None\<rparr>\<rparr>,
      \<lparr>identifier = \<lparr>id' = ''a.three'', uuid = Some ''2''\<rparr>,
        manifest = \<lparr>extensionDependencies = None\<rparr>\<rparr>]
     [\<lparr>identifier = \<lparr>id' = ''a.two'', uuid = None\<rparr>,
        manifest = \<lparr>extensionDependencies = Some [''a.three'']\<rparr>\<rparr>]
     [''a.three'']
   = Some [\<lparr>identifier = \<lparr>id' = ''a.two'', uuid = None\<rparr>,
             manifest = \<lparr>extensionDependencies = Some [''a.three'']\<rparr>\<rparr>]"
proof -
  let ?two = "\<lparr>identifier = \<lparr>id' = ''a.two'', uuid = None\<rparr>,
        manifest = \<lparr>extensionDependencies = Some [''a.three'']\<rparr>\<rparr>"
  let ?inst = "[?two,
      \<lparr>identifier = \<lparr>id' = ''a.three'', uuid = Some ''1''\<rparr>,
        manifest = \<lparr>extensionDependencies = None\<rparr>\<rparr>,
      \<lparr>identifier = \<lparr>id' = ''a.three'', uuid = Some ''2''\<rparr>,
        manifest = \<lparr>extensionDependencies = None\<rparr>\<rparr>]"
  have v: "dependencies_loop ?inst [?two] [''a.four'', ''a.three''] = Some [?two]"
    by (simp add: dependencies_eval)
  (* the round that accepts a.two *)
  have h1: "''a.two'' \<noteq> []" by simp
  have h2: "\<forall>e\<in>set []. \<not> areSameExtensions (identifier e) \<lparr>id' = ''a.two'', uuid = None\<rparr>" by simp
  have m: "filter (\<lambda>e. areSameExtensions (identifier e) \<lparr>id' = ''a.two'', uuid = None\<rparr>) ?inst = [?two]"
    by (simp add: areSameExtensions_def truthy_def toUpperAscii_def)
  from dependencies_loop_round [OF h1 h2, of ?inst "[''a.four'']"] obtain r where
    r: "dependencies_loop ?inst [] [''a.two'', ''a.four''] = Some r"
    and acc: "\<forall>ext. filter (\<lambda>e. areSameExtensions (identifier e) \<lparr>id' = ''a.two'', uuid = None\<rparr>) ?inst = [ext]
       \<longrightarrow> dependencies_loop ?inst ([] @ [ext]) ([''a.four''] @ dependencyIds ext) = Some r
         \<and> (\<exists>s. r = [] @ [ext] @ s)"
    by blast
  from acc m have "dependencies_loop ?inst ([] @ [?two]) ([''a.four''] @ dependencyIds ?two) = Some r"
    by blast
  then have "dependencies_loop ?inst [?two] [''a.four'', ''a.three''] = Some r"
    by (simp add: dependencyIds_def)
  with v have "r = [?two]" by simp
  with r have 1: "dependencies_loop ?inst [] [''a.two'', ''a.four''] = Some [?two]" by simp
  (* the round that drops a.four, which no installed extension matches *)
  have k1: "''a.four'' \<noteq> []" by simp
  have k2: "\<forall>e\<in>set [?two]. \<not> areSameExtensions (identifier e) \<lparr>id' = ''a.four'', uuid = None\<rparr>"
    by (simp add: areSameExtensions_def truthy_def toUpperAscii_def)
  have n: "length (filter (\<lambda>e. areSameExtensions (identifier e) \<lparr>id' = ''a.four'', uuid = None\<rparr>) ?inst) \<noteq> 1"
    by (simp add: areSameExtensions_def truthy_def toUpperAscii_def)
  from dependencies_loop_round [OF k1 k2, of ?inst "[''a.three'']"] obtain r' where
    r': "dependencies_loop ?inst [?two] [''a.four'', ''a.three''] = Some r'"
    and drop: "length (filter (\<lambda>e. areSameExtensions (identifier e) \<lparr>id' = ''a.four'', uuid = None\<rparr>) ?inst) \<noteq> 1
       \<longrightarrow> dependencies_loop ?inst [?two] [''a.three''] = Some r'
         \<and> (\<forall>e\<in>set r'. \<not> areSameExtensions (identifier e) \<lparr>id' = ''a.four'', uuid = None\<rparr>)"
    by blast
  from r' v have "r' = [?two]" by simp
  with drop n have 2: "dependencies_loop ?inst [?two] [''a.three''] = Some [?two]" by blast
  from 1 v 2 show ?thesis by blast
qed

text \<open>
  Claim C8, as stated, speaks of every id that is not already accepted. The test \<open>id && ...\<close>
  of the source drops the empty id before any installed extension is looked up: with a single
  installed extension whose id is empty, the dependency id \<open>""\<close> has exactly one match and is
  not already accepted, and the result is empty.
\<close>

theorem dependencies_loop_empty_id_counterexample:
  "filter (\<lambda>e. areSameExtensions (identifier e) \<lparr>id' = '''', uuid = None\<rparr>)
     [\<lparr>identifier = \<lparr>id' = '''', uuid = None\<rparr>, manifest = \<lparr>extensionDependencies = None\<rparr>\<rparr>]
     = [\<lparr>identifier = \<lparr>id' = '''', uuid = None\<rparr>, manifest = \<lparr>extensionDependencies = None\<rparr>\<rparr>]
   \<and> list_all (\<lambda>e. \<not> areSameExtensions (identifier e) \<lparr>id' = '''', uuid = None\<rparr>) []
   \<and> dependencies_loop
       [\<lparr>identifier = \<lparr>id' = '''', uuid = None\<rparr>, manifest = \<lparr>extensionDependencies = None\<rparr>\<rparr>]
       [] [''''] = Some []"
  by (simp add: dependencies_eval)

end
